theory Spec2Isabelle
  imports Complex_Main "HOL-Library.Sublist" "HOL-Library.AList" "HOL-Library.Multiset"
begin

section \<open>Column auto-mapping of the price update page\<close>

text \<open>
  The development embeds the column reconciliation code of the page component:
  \<^verbatim>\<open>validateColumnMappings\<close>, \<^verbatim>\<open>calculateSimilarity\<close>, \<^verbatim>\<open>getKeywords\<close>,
  \<^verbatim>\<open>findBestMatch\<close> and \<^verbatim>\<open>autoMapColumns\<close>. The repository holds two revisions of the
  page. The embedding follows the later one, the file with the three passes, the
  denylist and the acceptance threshold 0.5, which is the one the description of the
  system is written from; the matcher of the earlier one (\<^verbatim>\<open>src/app/page.tsx\<close>) is
  embedded next to it under names ending in \<open>_page\<close>.

  Modelling decisions.
  \<^item> A JavaScript string is a \<^typ>\<open>string\<close>: a list of 8-bit characters, read as the
    UTF-16 code units below 256 (Latin-1). Headers with code units above 255 are outside
    the model.
  \<^item> A JavaScript number holding a score is a \<^typ>\<open>rat\<close>: the double arithmetic of the
    scores (\<open>0.8\<close>, \<open>0.7\<close>, \<open>+ 0.2\<close>, \<open>1 - d / n\<close>) is idealised as exact arithmetic.
  \<^item> The object \<^verbatim>\<open>mappings\<close> is an association list in insertion order; a property
    read \<^verbatim>\<open>mappings[k]\<close> is \<^term>\<open>map_of\<close>, an assignment is \<^term>\<open>AList.update\<close>.
    Keys inherited from \<^verbatim>\<open>Object.prototype\<close> are outside the model.
  \<^item> The constant \<^verbatim>\<open>BUSINESS_FIELDS\<close> is a parameter of the functions whose name ends
    in \<open>With\<close>; the functions of the source are their instances at the catalog.
\<close>

subsection \<open>Strings\<close>

definition isUpperChar :: "char \<Rightarrow> bool" where
  "isUpperChar c =
     (let n = (of_char c :: nat)
      in (65 \<le> n \<and> n \<le> 90) \<or> (192 \<le> n \<and> n \<le> 222 \<and> n \<noteq> 215))"

text \<open>\<^verbatim>\<open>toLowerCase\<close> on one code unit below 256: an upper-case letter moves up by 32,
  which sets bit 5.\<close>

definition toLowerChar :: "char \<Rightarrow> char" where
  "toLowerChar c =
     (if isUpperChar c
      then (case c of Char b0 b1 b2 b3 b4 b5 b6 b7 \<Rightarrow> Char b0 b1 b2 b3 b4 True b6 b7)
      else c)"

definition toLowerCase :: "string \<Rightarrow> string" where
  "toLowerCase s = map toLowerChar s"

text \<open>The character class \<^verbatim>\<open>[a-z0-9]\<close>.\<close>

definition isLowerAlnum :: "char \<Rightarrow> bool" where
  "isLowerAlnum c =
     (let n = (of_char c :: nat) in (97 \<le> n \<and> n \<le> 122) \<or> (48 \<le> n \<and> n \<le> 57))"

text \<open>\<^verbatim>\<open>s.replace(/[^a-z0-9]/g, '')\<close>.\<close>

definition stripNonAlnum :: "string \<Rightarrow> string" where
  "stripNonAlnum s = filter isLowerAlnum s"

text \<open>The character class \<^verbatim>\<open>\w\<close>, that is \<^verbatim>\<open>[A-Za-z0-9_]\<close>.\<close>

definition isWordChar :: "char \<Rightarrow> bool" where
  "isWordChar c =
     (let n = (of_char c :: nat)
      in (65 \<le> n \<and> n \<le> 90) \<or> (97 \<le> n \<and> n \<le> 122) \<or> (48 \<le> n \<and> n \<le> 57) \<or> n = 95)"

text \<open>The character class \<^verbatim>\<open>\s\<close> below 256: tab, line feed, vertical tab, form feed,
  carriage return, space and no-break space.\<close>

definition isSpaceChar :: "char \<Rightarrow> bool" where
  "isSpaceChar c =
     (let n = (of_char c :: nat) in (9 \<le> n \<and> n \<le> 13) \<or> n = 32 \<or> n = 160)"

text \<open>\<^verbatim>\<open>s.includes(t)\<close>: \<open>t\<close> occurs in \<open>s\<close> as a contiguous block.\<close>

fun includesStr :: "string \<Rightarrow> string \<Rightarrow> bool" where
  "includesStr [] t = (t = [])"
| "includesStr (x # xs) t = (prefix t (x # xs) \<or> includesStr xs t)"

text \<open>\<^verbatim>\<open>s.split(sep)\<close> for a one-character separator: the empty string gives one
  empty piece, and every separator starts a new piece.\<close>

fun splitOn :: "char \<Rightarrow> string \<Rightarrow> string list" where
  "splitOn sep [] = [[]]"
| "splitOn sep (c # cs) =
     (if c = sep then [] # splitOn sep cs
      else (case splitOn sep cs of w # ws \<Rightarrow> (c # w) # ws | [] \<Rightarrow> [[c]]))"

text \<open>\<^verbatim>\<open>s.split(/\s+/)\<close>: every maximal run of white space separates two pieces;
  a leading or trailing run leaves an empty piece.\<close>

function splitSpaces :: "string \<Rightarrow> string list" where
  "splitSpaces [] = [[]]"
| "splitSpaces (c # cs) =
     (if isSpaceChar c then [] # splitSpaces (dropWhile isSpaceChar cs)
      else (case splitSpaces cs of w # ws \<Rightarrow> (c # w) # ws | [] \<Rightarrow> [[c]]))"
  by pat_completeness auto
termination
  by (relation "measure length") (auto simp: le_imp_less_Suc length_dropWhile_le)

text \<open>\<^verbatim>\<open>xs.join(sep)\<close>.\<close>

fun joinWith :: "string \<Rightarrow> string list \<Rightarrow> string" where
  "joinWith sep [] = []"
| "joinWith sep [x] = x"
| "joinWith sep (x # y # ys) = x @ sep @ joinWith sep (y # ys)"

subsection \<open>The field catalog\<close>

record business_field =
  key :: string
  label :: string

definition BUSINESS_FIELDS :: "business_field list" where
  "BUSINESS_FIELDS =
    [\<lparr>key = ''exShowroomPrice'', label = ''Ex Showroom price (excl Incentives/ Subsidy)''\<rparr>,
     \<lparr>key = ''emps'', label = ''EMPS''\<rparr>,
     \<lparr>key = ''stateSubsidy'', label = ''State Subsidy (Claimed after delivery)''\<rparr>,
     \<lparr>key = ''postGstDiscount'', label = ''Post GST Discount''\<rparr>,
     \<lparr>key = ''p1Total'', label = ''P1 Total (Excl Insurance and RTO but incl subsidys)''\<rparr>,
     \<lparr>key = ''insurance'', label = ''Insurance''\<rparr>,
     \<lparr>key = ''municipalTax'',
      label = ''Municipal tax (% tax on Ex showroom excl. subsidy) [130]''\<rparr>,
     \<lparr>key = ''rtoRoadSafety'', label = ''RTO - Road safety tax / CESS.''\<rparr>,
     \<lparr>key = ''smartCardFee'', label = ''Smart card fee & RTO registration''\<rparr>,
     \<lparr>key = ''postalCharges'', label = ''Postal Charges.''\<rparr>,
     \<lparr>key = ''serviceCharge'', label = ''Service Charge and Penality''\<rparr>,
     \<lparr>key = ''roadTax'', label = ''Road tax (% tax on Ex showroom excl. subsidy) [130]''\<rparr>,
     \<lparr>key = ''effectiveOnRoadCore'', label = ''Effective on road Price to customer - Core''\<rparr>,
     \<lparr>key = ''effectiveOnRoadPro'', label = ''Effective on road Price to customer - Pro''\<rparr>]"

subsection \<open>validateColumnMappings\<close>

text \<open>A value read from the mapping is truthy when it is present and not the empty
  string.\<close>

definition truthy :: "string option \<Rightarrow> bool" where
  "truthy v = (case v of None \<Rightarrow> False | Some s \<Rightarrow> s \<noteq> [])"

record validation =
  errors :: "string list"
  warnings :: "string list"
  isValid :: bool

definition missingMessage :: "business_field \<Rightarrow> string" where
  "missingMessage field = ''Missing mapping for: '' @ label field"

definition invalidMessage :: "business_field \<Rightarrow> string \<Rightarrow> string" where
  "invalidMessage field mappedColumn =
     ''Invalid column selected for '' @ label field @ '': '' @ [CHR 0x22] @ mappedColumn
       @ [CHR 0x22] @ '' not found in Excel file''"

definition duplicateMessage :: "string list \<Rightarrow> string" where
  "duplicateMessage duplicates =
     ''Duplicate column mappings detected: '' @ joinWith '', '' duplicates"

text \<open>The body of the \<^verbatim>\<open>forEach\<close> over the catalog: it pushes at most one error for
  the field.\<close>

definition validateField ::
  "(string \<times> string) list \<Rightarrow> string list \<Rightarrow> business_field \<Rightarrow> string list \<Rightarrow> string list" where
  "validateField mappings columnNames field errs =
     (case map_of mappings (key field) of
        None \<Rightarrow> errs @ [missingMessage field]
      | Some mappedColumn \<Rightarrow>
          if mappedColumn = [] then errs @ [missingMessage field]
          else if mappedColumn \<notin> set columnNames
               then errs @ [invalidMessage field mappedColumn]
               else errs)"

text \<open>\<^verbatim>\<open>xs.indexOf(v)\<close> for a \<open>v\<close> that occurs in \<open>xs\<close>.\<close>

fun indexOf :: "string list \<Rightarrow> string \<Rightarrow> nat" where
  "indexOf [] v = 0"
| "indexOf (x # xs) v = (if x = v then 0 else Suc (indexOf xs v))"

text \<open>\<^verbatim>\<open>mappedValues.filter((value, index) => mappedValues.indexOf(value) !== index)\<close>.\<close>

definition duplicatesOf :: "string list \<Rightarrow> string list" where
  "duplicatesOf mappedValues =
     map fst (filter (\<lambda>(v, i). indexOf mappedValues v \<noteq> i)
                     (zip mappedValues [0..<length mappedValues]))"

definition validateColumnMappingsWith ::
  "business_field list \<Rightarrow> (string \<times> string) list \<Rightarrow> string list \<Rightarrow> validation" where
  "validateColumnMappingsWith catalog mappings columnNames =
     (let errs = fold (validateField mappings columnNames) catalog [];
          mappedValues = filter (\<lambda>v. v \<noteq> []) (map snd mappings);
          duplicates = duplicatesOf mappedValues;
          warns = (if length duplicates > 0 then [duplicateMessage duplicates] else [])
      in \<lparr>errors = errs, warnings = warns, isValid = (length errs = 0)\<rparr>)"

definition validateColumnMappings :: "(string \<times> string) list \<Rightarrow> string list \<Rightarrow> validation" where
  "validateColumnMappings = validateColumnMappingsWith BUSINESS_FIELDS"

subsection \<open>calculateSimilarity\<close>

text \<open>The matrix has \<open>length s2 + 1\<close> rows of \<open>length s1 + 1\<close> cells. A cell that
  holds \<^verbatim>\<open>null\<close> is \<open>0\<close>, the number \<^verbatim>\<open>null\<close> converts to in arithmetic.\<close>

definition newMatrix :: "nat \<Rightarrow> nat \<Rightarrow> nat list list" where
  "newMatrix len1 len2 = replicate (len2 + 1) (replicate (len1 + 1) 0)"

text \<open>\<^verbatim>\<open>matrix[j][i] = v\<close>.\<close>

definition setCell :: "nat list list \<Rightarrow> nat \<Rightarrow> nat \<Rightarrow> nat \<Rightarrow> nat list list" where
  "setCell matrix j i v = matrix[j := (matrix ! j)[i := v]]"

definition initMatrix :: "nat \<Rightarrow> nat \<Rightarrow> nat list list" where
  "initMatrix len1 len2 =
     fold (\<lambda>j matrix. setCell matrix j 0 j) [0..<len2 + 1]
       (fold (\<lambda>i matrix. setCell matrix 0 i i) [0..<len1 + 1] (newMatrix len1 len2))"

definition fillCell :: "string \<Rightarrow> string \<Rightarrow> nat \<Rightarrow> nat \<Rightarrow> nat list list \<Rightarrow> nat list list" where
  "fillCell s1 s2 j i matrix =
     (let indicator = (if s1 ! (i - 1) = s2 ! (j - 1) then 0 else 1)
      in setCell matrix j i
           (min (min (matrix ! j ! (i - 1) + 1) (matrix ! (j - 1) ! i + 1))
                (matrix ! (j - 1) ! (i - 1) + indicator)))"

definition fillMatrix :: "string \<Rightarrow> string \<Rightarrow> nat list list" where
  "fillMatrix s1 s2 =
     fold (\<lambda>j matrix. fold (fillCell s1 s2 j) [1..<length s1 + 1] matrix)
       [1..<length s2 + 1] (initMatrix (length s1) (length s2))"

definition matrixDistance :: "string \<Rightarrow> string \<Rightarrow> nat" where
  "matrixDistance s1 s2 = fillMatrix s1 s2 ! length s2 ! length s1"

definition calculateSimilarity :: "string \<Rightarrow> string \<Rightarrow> rat" where
  "calculateSimilarity str1 str2 =
     (let s1 = stripNonAlnum (toLowerCase str1);
          s2 = stripNonAlnum (toLowerCase str2)
      in if s1 = s2 then 1
         else if includesStr s1 s2 \<or> includesStr s2 s1 then 8 / 10
         else let distance = matrixDistance s1 s2;
                  maxLength = max (length s1) (length s2)
              in if maxLength = 0 then 1
                 else 1 - rat_of_nat distance / rat_of_nat maxLength)"

text \<open>The Levenshtein distance of the prefixes of length \<open>i\<close> and \<open>j\<close>, by its defining
  recurrence: the reference the matrix is compared with.\<close>

fun levenshtein :: "string \<Rightarrow> string \<Rightarrow> nat \<Rightarrow> nat \<Rightarrow> nat" where
  "levenshtein a b 0 j = j"
| "levenshtein a b (Suc i) 0 = Suc i"
| "levenshtein a b (Suc i) (Suc j) =
     min (min (levenshtein a b i (Suc j) + 1) (levenshtein a b (Suc i) j + 1))
         (levenshtein a b i j + (if a ! i = b ! j then 0 else 1))"

text \<open>\<open>edits xs ys n\<close>: \<open>xs\<close> can be turned into \<open>ys\<close> by an edit script that goes through
  the strings from left to right and pays 1 for each character it substitutes, deletes
  or inserts. The Levenshtein distance is the least such \<open>n\<close>.\<close>

inductive edits :: "string \<Rightarrow> string \<Rightarrow> nat \<Rightarrow> bool" where
  nil: "edits [] [] 0"
| keep: "edits xs ys n \<Longrightarrow> edits (x # xs) (x # ys) n"
| substitute: "edits xs ys n \<Longrightarrow> edits (x # xs) (y # ys) (Suc n)"
| delete: "edits xs ys n \<Longrightarrow> edits (x # xs) ys (Suc n)"
| insert: "edits xs ys n \<Longrightarrow> edits xs (y # ys) (Suc n)"

text \<open>The distance by recursion on the two strings.\<close>

fun editDistance :: "string \<Rightarrow> string \<Rightarrow> nat" where
  "editDistance [] ys = length ys"
| "editDistance (x # xs) [] = Suc (length xs)"
| "editDistance (x # xs) (y # ys) =
     min (min (editDistance xs (y # ys) + 1) (editDistance (x # xs) ys + 1))
         (editDistance xs ys + (if x = y then 0 else 1))"

subsection \<open>getKeywords\<close>

definition getKeywords :: "string \<Rightarrow> string list" where
  "getKeywords lbl =
     filter (\<lambda>word. length word > 2)
       (splitSpaces
          (map (\<lambda>c. if \<not> isWordChar c \<and> \<not> isSpaceChar c then CHR '' '' else c)
               (toLowerCase lbl)))"

subsection \<open>findBestMatch\<close>

text \<open>The two tests of the first loop. Both compare against the lower-cased key and the
  lower-cased label of the field.\<close>

definition isExactMatch :: "business_field \<Rightarrow> string \<Rightarrow> bool" where
  "isExactMatch field column =
     (let columnLower = toLowerCase column;
          fieldKey = toLowerCase (key field);
          fieldLabel = toLowerCase (label field)
      in columnLower = fieldKey \<or> columnLower = fieldLabel)"

definition isCleanedMatch :: "business_field \<Rightarrow> string \<Rightarrow> bool" where
  "isCleanedMatch field column =
     (let columnLower = toLowerCase column;
          fieldKey = toLowerCase (key field);
          fieldLabel = toLowerCase (label field)
      in stripNonAlnum columnLower = stripNonAlnum fieldKey
         \<or> stripNonAlnum columnLower = stripNonAlnum fieldLabel)"

text \<open>The first loop of \<^verbatim>\<open>findBestMatch\<close>: each column is tested for an exact match and
  then for a cleaned exact match before the next column is looked at; the first column
  that passes either test is returned.\<close>

fun exactLoop :: "business_field \<Rightarrow> string list \<Rightarrow> string option" where
  "exactLoop field [] = None"
| "exactLoop field (column # rest) =
     (if isExactMatch field column then Some column
      else if isCleanedMatch field column then Some column
      else exactLoop field rest)"

definition isDenylisted :: "string \<Rightarrow> bool" where
  "isDenylisted columnLower =
     (includesStr columnLower ''product'' \<or> includesStr columnLower ''name''
      \<or> includesStr columnLower ''model'' \<or> includesStr columnLower ''code''
      \<or> includesStr columnLower ''category'' \<or> includesStr columnLower ''region''
      \<or> includesStr columnLower ''status'')"

definition keywordScoreOf :: "string list \<Rightarrow> string list \<Rightarrow> string \<Rightarrow> rat" where
  "keywordScoreOf fieldKeywords columnKeywords columnLower =
     fold (\<lambda>fieldKeyword keywordScore.
             (let ks = fold (\<lambda>colKeyword ks. max ks (calculateSimilarity fieldKeyword colKeyword))
                            columnKeywords keywordScore
              in if includesStr columnLower fieldKeyword then max ks (7 / 10) else ks))
          fieldKeywords 0"

definition boostFor :: "string \<Rightarrow> string \<Rightarrow> string \<Rightarrow> rat \<Rightarrow> rat" where
  "boostFor token fieldKey columnLower score =
     (if includesStr fieldKey token \<and> includesStr columnLower token then score + 2 / 10
      else score)"

definition domainBoost :: "string \<Rightarrow> string \<Rightarrow> rat \<Rightarrow> rat" where
  "domainBoost fieldKey columnLower score =
     boostFor ''rto'' fieldKey columnLower
       (boostFor ''road'' fieldKey columnLower
         (boostFor ''discount'' fieldKey columnLower
           (boostFor ''subsidy'' fieldKey columnLower
             (boostFor ''insurance'' fieldKey columnLower
               (boostFor ''tax'' fieldKey columnLower
                 (boostFor ''price'' fieldKey columnLower score))))))"

text \<open>The score the second loop computes for a column that is not skipped.\<close>

definition columnScore :: "business_field \<Rightarrow> string \<Rightarrow> rat" where
  "columnScore field column =
     (let fieldKeywords = getKeywords (label field);
          fieldKey = toLowerCase (key field);
          fieldLabel = toLowerCase (label field);
          columnLower = toLowerCase column;
          columnKeywords = getKeywords column
      in if includesStr fieldKey columnLower \<or> includesStr columnLower fieldKey
            \<or> includesStr fieldLabel columnLower \<or> includesStr columnLower fieldLabel
         then 8 / 10
         else let score = max 0 (calculateSimilarity fieldKey columnLower);
                  score = max score (calculateSimilarity fieldLabel column);
                  score = max score (keywordScoreOf fieldKeywords columnKeywords columnLower)
              in if score < 8 / 10 then domainBoost fieldKey columnLower score else score)"

definition threshold :: rat where
  "threshold = 5 / 10"

text \<open>The body of the second loop, on the pair \<open>(bestMatch, bestScore)\<close>.\<close>

definition fuzzyStep :: "business_field \<Rightarrow> string \<Rightarrow> string \<times> rat \<Rightarrow> string \<times> rat" where
  "fuzzyStep field column best =
     (case best of (bestMatch, bestScore) \<Rightarrow>
        if isDenylisted (toLowerCase column) then (bestMatch, bestScore)
        else let score = columnScore field column
             in if score > bestScore \<and> score \<ge> threshold then (column, score)
                else (bestMatch, bestScore))"

definition fuzzyLoop :: "business_field \<Rightarrow> string list \<Rightarrow> string \<times> rat" where
  "fuzzyLoop field columnNames = fold (fuzzyStep field) columnNames ([], 0)"

text \<open>The result \<^verbatim>\<open>null\<close> is \<open>None\<close>. The first loop returns its column as it is, the
  second loop's \<^verbatim>\<open>bestMatch || null\<close> turns the empty string into \<^verbatim>\<open>null\<close>.\<close>

definition findBestMatch :: "business_field \<Rightarrow> string list \<Rightarrow> string option" where
  "findBestMatch field columnNames =
     (case exactLoop field columnNames of
        Some column \<Rightarrow> Some column
      | None \<Rightarrow>
          (let bestMatch = fst (fuzzyLoop field columnNames)
           in if bestMatch = [] then None else Some bestMatch))"

subsection \<open>findBestMatch in the earlier revision\<close>

text \<open>The repository holds a second, earlier revision of the page (\<^verbatim>\<open>src/app/page.tsx\<close>).
  Its \<^verbatim>\<open>findBestMatch\<close> has a single loop, no denylist and the threshold 0.3; it is
  embedded to state where the two revisions differ: the claims about the threshold and
  the denylist hold on the later revision only.\<close>

text \<open>The score of the single loop of the earlier revision: 1 for an exact match, 0.95
  for a cleaned exact match, and the score of the later revision otherwise.\<close>

definition columnScore_page :: "business_field \<Rightarrow> string \<Rightarrow> rat" where
  "columnScore_page field column =
     (if isExactMatch field column then 1
      else if isCleanedMatch field column then 95 / 100
      else columnScore field column)"

definition threshold_page :: rat where
  "threshold_page = 3 / 10"

definition fuzzyStep_page :: "business_field \<Rightarrow> string \<Rightarrow> string \<times> rat \<Rightarrow> string \<times> rat" where
  "fuzzyStep_page field column best =
     (case best of (bestMatch, bestScore) \<Rightarrow>
        let score = columnScore_page field column
        in if score > bestScore \<and> score \<ge> threshold_page then (column, score)
           else (bestMatch, bestScore))"

definition findBestMatch_page :: "business_field \<Rightarrow> string list \<Rightarrow> string option" where
  "findBestMatch_page field columnNames =
     (let bestMatch = fst (fold (fuzzyStep_page field) columnNames ([], 0))
      in if bestMatch = [] then None else Some bestMatch)"

subsection \<open>autoMapColumns\<close>

text \<open>The state of a run: the object \<^verbatim>\<open>mappings\<close> and the set \<^verbatim>\<open>usedColumns\<close>.\<close>

type_synonym run_state = "(string \<times> string) list \<times> string set"

text \<open>\<^verbatim>\<open>mappings[field.key] = column; usedColumns.add(column)\<close>.\<close>

definition claim :: "business_field \<Rightarrow> string \<Rightarrow> run_state \<Rightarrow> run_state" where
  "claim field column st = (AList.update (key field) column (fst st), insert column (snd st))"

text \<open>First pass: the first column that matches exactly, taken when it is truthy and not
  used yet.\<close>

definition exactStep :: "string list \<Rightarrow> business_field \<Rightarrow> run_state \<Rightarrow> run_state" where
  "exactStep columnNames field st =
     (case find (isExactMatch field) columnNames of
        Some exactMatch \<Rightarrow>
          if exactMatch \<noteq> [] \<and> exactMatch \<notin> snd st then claim field exactMatch st else st
      | None \<Rightarrow> st)"

text \<open>\<^verbatim>\<open>BUSINESS_FIELDS.filter(field => !mappings[field.key])\<close>.\<close>

definition unmappedFields :: "business_field list \<Rightarrow> (string \<times> string) list \<Rightarrow> business_field list" where
  "unmappedFields catalog mappings =
     filter (\<lambda>field. \<not> truthy (map_of mappings (key field))) catalog"

text \<open>Second pass: the first unused column that matches after cleaning.\<close>

definition cleanedStep :: "string list \<Rightarrow> business_field \<Rightarrow> run_state \<Rightarrow> run_state" where
  "cleanedStep columnNames field st =
     (case find (\<lambda>col. col \<notin> snd st \<and> isCleanedMatch field col) columnNames of
        Some cleanedExactMatch \<Rightarrow>
          if cleanedExactMatch \<noteq> [] then claim field cleanedExactMatch st else st
      | None \<Rightarrow> st)"

text \<open>\<^verbatim>\<open>label.split(' ').length\<close>.\<close>

definition specificity :: "business_field \<Rightarrow> nat" where
  "specificity field = length (splitOn (CHR '' '') (label field))"

text \<open>\<^verbatim>\<open>sort((a, b) => bSpecific - aSpecific)\<close>: larger counts first; the sort is stable
  (\<^verbatim>\<open>Array.prototype.sort\<close> since ECMAScript 2019), so fields with equal counts keep
  their catalog order.\<close>

definition sortBySpecificity :: "business_field list \<Rightarrow> business_field list" where
  "sortBySpecificity fs = sort_key (\<lambda>field. - int (specificity field)) fs"

text \<open>Third pass: \<^verbatim>\<open>findBestMatch\<close> on the columns that are not used yet.\<close>

definition fuzzyFieldStep :: "string list \<Rightarrow> business_field \<Rightarrow> run_state \<Rightarrow> run_state" where
  "fuzzyFieldStep columnNames field st =
     (let availableColumns = filter (\<lambda>col. col \<notin> snd st) columnNames
      in case findBestMatch field availableColumns of
           Some bestMatch \<Rightarrow> if bestMatch \<noteq> [] then claim field bestMatch st else st
         | None \<Rightarrow> st)"

definition afterExactPass :: "business_field list \<Rightarrow> string list \<Rightarrow> run_state" where
  "afterExactPass catalog columnNames = fold (exactStep columnNames) catalog ([], {})"

definition afterCleanedPass :: "business_field list \<Rightarrow> string list \<Rightarrow> run_state" where
  "afterCleanedPass catalog columnNames =
     (let st = afterExactPass catalog columnNames;
          remainingFields = unmappedFields catalog (fst st)
      in fold (cleanedStep columnNames) remainingFields st)"

text \<open>The fields the third pass works through, in the order it takes them.\<close>

definition sortedFields :: "business_field list \<Rightarrow> string list \<Rightarrow> business_field list" where
  "sortedFields catalog columnNames =
     (let stillUnmappedFields = unmappedFields catalog (fst (afterCleanedPass catalog columnNames))
      in sortBySpecificity stillUnmappedFields)"

definition autoMapColumnsWith :: "business_field list \<Rightarrow> string list \<Rightarrow> (string \<times> string) list" where
  "autoMapColumnsWith catalog columnNames =
     fst (fold (fuzzyFieldStep columnNames) (sortedFields catalog columnNames)
            (afterCleanedPass catalog columnNames))"

definition autoMapColumns :: "string list \<Rightarrow> (string \<times> string) list" where
  "autoMapColumns = autoMapColumnsWith BUSINESS_FIELDS"

text \<open>The number of white-space separated tokens of a label: the count the description
  of the third pass speaks of.\<close>

definition tokenCount :: "string \<Rightarrow> nat" where
  "tokenCount lbl = length (filter (\<lambda>w. w \<noteq> []) (splitSpaces lbl))"

subsection \<open>Invariants used in the proofs\<close>

text \<open>A step of a pass either leaves the state alone or claims a non-empty column of the
  sheet that is not used yet.\<close>

definition claimStep :: "string list \<Rightarrow> (business_field \<Rightarrow> run_state \<Rightarrow> run_state) \<Rightarrow> bool" where
  "claimStep cols step \<longleftrightarrow>
     (\<forall>f st. step f st = st \<or>
        (\<exists>c. c \<in> set cols \<and> c \<noteq> [] \<and> c \<notin> snd st \<and> step f st = claim f c st))"

text \<open>The state of a run is well formed: keys and values are unique, every value is a
  used, non-empty column of the sheet and every key is among \<open>K\<close>.\<close>

definition wellFormed :: "string set \<Rightarrow> string list \<Rightarrow> run_state \<Rightarrow> bool" where
  "wellFormed K cols st \<longleftrightarrow>
     distinct (map fst (fst st)) \<and> distinct (map snd (fst st)) \<and>
     snd ` set (fst st) \<subseteq> snd st \<and> snd ` set (fst st) \<subseteq> set cols \<and>
     fst ` set (fst st) \<subseteq> K \<and> [] \<notin> snd ` set (fst st)"

text \<open>The matrix has its dimensions, and the cells written so far (row 0, column 0, the
  rows before \<open>j\<close> and the cells before \<open>i\<close> in row \<open>j\<close>) hold the distance of
  the prefixes.\<close>

definition shaped :: "nat \<Rightarrow> nat \<Rightarrow> nat list list \<Rightarrow> bool" where
  "shaped len1 len2 matrix \<longleftrightarrow>
     length matrix = len2 + 1 \<and> (\<forall>j \<le> len2. length (matrix ! j) = len1 + 1)"

definition filled :: "string \<Rightarrow> string \<Rightarrow> nat list list \<Rightarrow> nat \<Rightarrow> nat \<Rightarrow> bool" where
  "filled s1 s2 matrix j i \<longleftrightarrow>
     shaped (length s1) (length s2) matrix \<and>
     (\<forall>j' i'. j' \<le> length s2 \<and> i' \<le> length s1 \<and>
        (j' = 0 \<or> i' = 0 \<or> j' < j \<or> (j' = j \<and> i' < i))
        \<longrightarrow> matrix ! j' ! i' = levenshtein s1 s2 i' j')"

text \<open>A step of the first two passes claims only a column that matches the field after
  cleaning.\<close>

definition matchStep :: "string list \<Rightarrow> (business_field \<Rightarrow> run_state \<Rightarrow> run_state) \<Rightarrow> bool" where
  "matchStep cols step \<longleftrightarrow>
     (\<forall>f st. step f st = st \<or>
        (\<exists>c. c \<in> set cols \<and> c \<noteq> [] \<and> c \<notin> snd st \<and> isCleanedMatch f c \<and>
             step f st = claim f c st))"

text \<open>Every binding of the state is a cleaned match of a catalog field with that key.\<close>

definition justified :: "business_field list \<Rightarrow> run_state \<Rightarrow> bool" where
  "justified catalog st \<longleftrightarrow>
     (\<forall>(k, c) \<in> set (fst st). \<exists>g \<in> set catalog. key g = k \<and> isCleanedMatch g c)"

text \<open>Every binding of the state is a cleaned match, or a column that is not denylisted
  and scores at least the threshold, for a catalog field with that key.\<close>

definition accepted :: "business_field list \<Rightarrow> run_state \<Rightarrow> bool" where
  "accepted catalog st \<longleftrightarrow>
     (\<forall>(k, c) \<in> set (fst st). \<exists>g \<in> set catalog. key g = k \<and>
        (isCleanedMatch g c \<or> (\<not> isDenylisted (toLowerCase c) \<and> threshold \<le> columnScore g c)))"

text \<open>The two normalized texts a column is compared with.\<close>

definition normKeys :: "business_field \<Rightarrow> string list" where
  "normKeys f = [stripNonAlnum (toLowerCase (key f)), stripNonAlnum (toLowerCase (label f))]"

section \<open>Supporting lemmas\<close>

subsection \<open>The matrix computes the Levenshtein distance\<close>

lemma fold_upt_invariant:
  assumes "a \<le> b" and "Q a x"
    and "\<And>i y. a \<le> i \<Longrightarrow> i < b \<Longrightarrow> Q i y \<Longrightarrow> Q (Suc i) (f i y)"
  shows "Q b (fold f [a..<b] x)"
  using assms
proof (induction b)
  case 0
  then show ?case by simp
next
  case (Suc b)
  show ?case
  proof (cases "a = Suc b")
    case True
    with Suc.prems show ?thesis by simp
  next
    case False
    with Suc.prems have le: "a \<le> b" by simp
    have "Q b (fold f [a..<b] x)"
      using le Suc.prems(2,3) by (intro Suc.IH) auto
    then have "Q (Suc b) (f b (fold f [a..<b] x))"
      using le by (intro Suc.prems(3)) auto
    with le show ?thesis by simp
  qed
qed

lemma shaped_setCell:
  assumes "shaped n1 n2 m"
  shows "shaped n1 n2 (setCell m j i v)"
proof -
  have "length (setCell m j i v ! j') = n1 + 1" if "j' \<le> n2" for j'
  proof -
    from that assms have lt: "j' < length m" by (simp add: shaped_def)
    from that assms have len: "length (m ! j') = n1 + 1" by (simp add: shaped_def)
    show ?thesis
      using lt len by (cases "j' = j") (simp_all add: setCell_def)
  qed
  with assms show ?thesis by (simp add: shaped_def setCell_def)
qed

lemma nth_setCell:
  "shaped n1 n2 m \<Longrightarrow> j \<le> n2 \<Longrightarrow> i \<le> n1 \<Longrightarrow>
   setCell m j i v ! j' ! i' = (if j' = j \<and> i' = i then v else m ! j' ! i')"
  by (auto simp: shaped_def setCell_def nth_list_update less_Suc_eq_le)

lemma shaped_newMatrix: "shaped n1 n2 (newMatrix n1 n2)"
  by (simp add: shaped_def newMatrix_def less_Suc_eq_le del: replicate.simps)

lemma levenshtein_zero [simp]: "levenshtein a b i 0 = i"
  by (cases i) simp_all

lemma initMatrix_rows:
  "shaped n1 n2 (fold (\<lambda>i m. setCell m 0 i i) [0..<n1 + 1] (newMatrix n1 n2)) \<and>
   (\<forall>i \<le> n1. fold (\<lambda>i m. setCell m 0 i i) [0..<n1 + 1] (newMatrix n1 n2) ! 0 ! i = i)"
proof -
  let ?Q = "\<lambda>k m. shaped n1 n2 m \<and> (\<forall>i < k. m ! 0 ! i = i)"
  have "?Q (n1 + 1) (fold (\<lambda>i m. setCell m 0 i i) [0..<n1 + 1] (newMatrix n1 n2))"
  proof (rule fold_upt_invariant [where Q = ?Q])
    show "?Q 0 (newMatrix n1 n2)" by (simp add: shaped_newMatrix)
  next
    fix i y assume "i < n1 + 1" "?Q i y"
    then show "?Q (Suc i) (setCell y 0 i i)"
      by (auto simp: shaped_setCell nth_setCell less_Suc_eq)
  qed simp
  then show ?thesis by (simp add: less_Suc_eq_le)
qed

lemma initMatrix_cells:
  "shaped n1 n2 (initMatrix n1 n2) \<and>
   (\<forall>i \<le> n1. initMatrix n1 n2 ! 0 ! i = i) \<and> (\<forall>j \<le> n2. initMatrix n1 n2 ! j ! 0 = j)"
proof -
  let ?m0 = "fold (\<lambda>i m. setCell m 0 i i) [0..<n1 + 1] (newMatrix n1 n2)"
  let ?Q = "\<lambda>k m. shaped n1 n2 m \<and> (\<forall>i \<le> n1. m ! 0 ! i = i) \<and> (\<forall>j < k. m ! j ! 0 = j)"
  have "?Q (n2 + 1) (fold (\<lambda>j m. setCell m j 0 j) [0..<n2 + 1] ?m0)"
  proof (rule fold_upt_invariant [where Q = ?Q])
    show "?Q 0 ?m0" using initMatrix_rows [of n1 n2] by simp
  next
    fix j y assume "j < n2 + 1" "?Q j y"
    then show "?Q (Suc j) (setCell y j 0 j)"
      by (auto simp: shaped_setCell nth_setCell less_Suc_eq)
  qed simp
  then show ?thesis by (simp add: initMatrix_def less_Suc_eq_le)
qed

lemma filled_initMatrix: "filled s1 s2 (initMatrix (length s1) (length s2)) 1 1"
  using initMatrix_cells [of "length s1" "length s2"]
  by (auto simp: filled_def)

lemma filled_fillCell:
  assumes "filled s1 s2 m j i" "1 \<le> i" "i \<le> length s1" "1 \<le> j" "j \<le> length s2"
  shows "filled s1 s2 (fillCell s1 s2 j i m) j (Suc i)"
proof -
  obtain i0 j0 where ij: "i = Suc i0" "j = Suc j0"
    using assms(2,4) by (metis One_nat_def Suc_le_D)
  from assms(1) have sh: "shaped (length s1) (length s2) m"
    and cells: "\<And>j' i'. j' \<le> length s2 \<Longrightarrow> i' \<le> length s1 \<Longrightarrow>
        j' = 0 \<or> i' = 0 \<or> j' < j \<or> (j' = j \<and> i' < i) \<Longrightarrow> m ! j' ! i' = levenshtein s1 s2 i' j'"
    by (auto simp: filled_def)
  have r1: "m ! j ! (i - 1) = levenshtein s1 s2 i0 (Suc j0)"
    using cells [of j "i - 1"] assms ij by simp
  have r2: "m ! (j - 1) ! i = levenshtein s1 s2 (Suc i0) j0"
    using cells [of "j - 1" i] assms ij by simp
  have r3: "m ! (j - 1) ! (i - 1) = levenshtein s1 s2 i0 j0"
    using cells [of "j - 1" "i - 1"] assms ij by simp
  have new: "fillCell s1 s2 j i m ! j' ! i' =
      (if j' = j \<and> i' = i then levenshtein s1 s2 i j else m ! j' ! i')" for j' i'
    unfolding fillCell_def Let_def
    using sh assms(3,5) r1 r2 r3 ij by (simp add: nth_setCell)
  have "shaped (length s1) (length s2) (fillCell s1 s2 j i m)"
    unfolding fillCell_def Let_def using sh by (rule shaped_setCell)
  moreover have "fillCell s1 s2 j i m ! j' ! i' = levenshtein s1 s2 i' j'"
    if "j' \<le> length s2" "i' \<le> length s1"
       "j' = 0 \<or> i' = 0 \<or> j' < j \<or> (j' = j \<and> i' < Suc i)" for j' i'
  proof (cases "j' = j \<and> i' = i")
    case True
    then show ?thesis by (simp add: new)
  next
    case False
    with that have "j' = 0 \<or> i' = 0 \<or> j' < j \<or> (j' = j \<and> i' < i)" by auto
    with that False show ?thesis using cells [of j' i'] by (simp add: new)
  qed
  ultimately show ?thesis unfolding filled_def by blast
qed

lemma filled_row:
  assumes "filled s1 s2 m j 1" "1 \<le> j" "j \<le> length s2"
  shows "filled s1 s2 (fold (fillCell s1 s2 j) [1..<length s1 + 1] m) j (length s1 + 1)"
proof (rule fold_upt_invariant [where Q = "\<lambda>i m. filled s1 s2 m j i"])
  show "filled s1 s2 m j 1" by fact
next
  fix i y assume "1 \<le> i" "i < length s1 + 1" "filled s1 s2 y j i"
  then show "filled s1 s2 (fillCell s1 s2 j i y) j (Suc i)"
    using assms(2,3) by (intro filled_fillCell) auto
qed simp

lemma filled_next_row:
  assumes "filled s1 s2 m j (length s1 + 1)"
  shows "filled s1 s2 m (Suc j) 1"
proof -
  from assms have sh: "shaped (length s1) (length s2) m"
    and cells: "\<And>j' i'. j' \<le> length s2 \<Longrightarrow> i' \<le> length s1 \<Longrightarrow>
        j' = 0 \<or> i' = 0 \<or> j' < j \<or> (j' = j \<and> i' < length s1 + 1) \<Longrightarrow>
        m ! j' ! i' = levenshtein s1 s2 i' j'"
    by (auto simp: filled_def)
  have "m ! j' ! i' = levenshtein s1 s2 i' j'"
    if "j' \<le> length s2" "i' \<le> length s1"
       "j' = 0 \<or> i' = 0 \<or> j' < Suc j \<or> (j' = Suc j \<and> i' < 1)" for j' i'
    using that by (intro cells) auto
  with sh show ?thesis unfolding filled_def by blast
qed

lemma filled_fillMatrix: "filled s1 s2 (fillMatrix s1 s2) (length s2 + 1) 1"
  unfolding fillMatrix_def
proof (rule fold_upt_invariant [where Q = "\<lambda>j m. filled s1 s2 m j 1"])
  show "filled s1 s2 (initMatrix (length s1) (length s2)) 1 1" by (rule filled_initMatrix)
next
  fix j y assume "1 \<le> j" "j < length s2 + 1" "filled s1 s2 y j 1"
  then show "filled s1 s2 (fold (fillCell s1 s2 j) [1..<length s1 + 1] y) (Suc j) 1"
    by (intro filled_next_row filled_row) auto
qed simp

lemma matrixDistance_levenshtein:
  "matrixDistance s1 s2 = levenshtein s1 s2 (length s1) (length s2)"
  using filled_fillMatrix [of s1 s2]
  by (auto simp: filled_def matrixDistance_def)

lemma levenshtein_le_max: "levenshtein a b i j \<le> max i j"
  by (induction a b i j rule: levenshtein.induct) auto

lemma includesStr_sublist: "includesStr s t \<longleftrightarrow> sublist t s"
  by (induction s) (auto simp: sublist_Cons_right)

subsection \<open>Every pass keeps the state well formed\<close>

lemma set_update_subset: "set (AList.update k v al) \<subseteq> insert (k, v) (set al)"
  by (induction al) auto

lemma update_fresh_append: "k \<notin> fst ` set al \<Longrightarrow> AList.update k v al = al @ [(k, v)]"
  by (induction al) auto

lemma distinct_values_update:
  "distinct (map snd al) \<Longrightarrow> v \<notin> snd ` set al \<Longrightarrow> distinct (map snd (AList.update k v al))"
proof (induction al)
  case Nil
  then show ?case by simp
next
  case (Cons p al)
  obtain k' v' where p: "p = (k', v')" by (cases p)
  have sub: "snd ` set (AList.update k v al) \<subseteq> insert v (snd ` set al)"
    using set_update_subset [of k v al] by force
  show ?case
  proof (cases "k' = k")
    case True
    with Cons.prems p show ?thesis by auto
  next
    case False
    with Cons p sub show ?thesis by auto
  qed
qed

lemma exactLoop_mem: "exactLoop f cols = Some c \<Longrightarrow> c \<in> set cols"
  by (induction cols) (auto split: if_splits)

lemma fuzzyLoop_gen_mem:
  "fst (fold (fuzzyStep f) cols best) = fst best \<or> fst (fold (fuzzyStep f) cols best) \<in> set cols"
proof (induction cols arbitrary: best)
  case Nil
  then show ?case by simp
next
  case (Cons c cols)
  have "fst (fuzzyStep f c best) = fst best \<or> fst (fuzzyStep f c best) = c"
    by (cases best) (simp add: fuzzyStep_def Let_def)
  with Cons [of "fuzzyStep f c best"] show ?case by auto
qed

lemma findBestMatch_mem: "findBestMatch f cols = Some c \<Longrightarrow> c \<in> set cols"
proof -
  assume a: "findBestMatch f cols = Some c"
  show ?thesis
  proof (cases "exactLoop f cols")
    case None
    with a have c: "c = fst (fuzzyLoop f cols)" "c \<noteq> []"
      by (auto simp: findBestMatch_def Let_def split: if_splits)
    with fuzzyLoop_gen_mem [of f cols "([], 0)"] show ?thesis
      by (auto simp: fuzzyLoop_def)
  next
    case (Some d)
    with a show ?thesis by (auto simp: findBestMatch_def dest: exactLoop_mem)
  qed
qed

lemma find_mem: "find P xs = Some x \<Longrightarrow> x \<in> set xs \<and> P x"
  by (induction xs) (auto split: if_splits)

lemma exactStep_claim: "claimStep cols (exactStep cols)"
  unfolding claimStep_def exactStep_def
  by (auto split: option.splits dest: find_mem)

lemma cleanedStep_claim: "claimStep cols (cleanedStep cols)"
  unfolding claimStep_def cleanedStep_def
  by (auto split: option.splits dest: find_mem)

lemma fuzzyFieldStep_claim: "claimStep cols (fuzzyFieldStep cols)"
  unfolding claimStep_def fuzzyFieldStep_def Let_def
  by (auto split: option.splits dest!: findBestMatch_mem)

lemma wellFormed_claim:
  assumes "wellFormed K cols st" "c \<in> set cols" "c \<noteq> []" "c \<notin> snd st" "key f \<in> K"
  shows "wellFormed K cols (claim f c st)"
proof -
  let ?m = "AList.update (key f) c (fst st)"
  have sub: "set ?m \<subseteq> insert (key f, c) (set (fst st))"
    by (rule set_update_subset)
  have fresh: "c \<notin> snd ` set (fst st)" using assms by (auto simp: wellFormed_def)
  with assms have d2: "distinct (map snd ?m)"
    by (auto simp: wellFormed_def intro: distinct_values_update)
  have d1: "distinct (map fst ?m)"
    using assms by (simp add: wellFormed_def distinct_update)
  have s1: "snd ` set ?m \<subseteq> insert c (snd ` set (fst st))" using sub by force
  have s2: "fst ` set ?m \<subseteq> insert (key f) (fst ` set (fst st))" using sub by force
  from assms(1) have w: "snd ` set (fst st) \<subseteq> snd st" "snd ` set (fst st) \<subseteq> set cols"
      "fst ` set (fst st) \<subseteq> K" "[] \<notin> snd ` set (fst st)"
    by (simp_all add: wellFormed_def)
  have a: "snd ` set ?m \<subseteq> insert c (snd st)"
    using s1 w(1) by (meson insert_mono subset_trans)
  have b: "snd ` set ?m \<subseteq> set cols"
    using s1 w(2) assms(2) by (meson insert_subset subset_trans)
  have c: "fst ` set ?m \<subseteq> K"
    using s2 w(3) assms(5) by (meson insert_subset subset_trans)
  have "[] \<notin> insert c (snd ` set (fst st))"
    using w(4) assms(3) by simp
  then have d: "[] \<notin> snd ` set ?m"
    using s1 by (meson subsetD)
  show ?thesis
    unfolding wellFormed_def claim_def fst_conv snd_conv
    by (intro conjI d1 d2 a b c d)
qed

lemma wellFormed_fold:
  assumes "claimStep cols step" "wellFormed K cols st" "key ` set fs \<subseteq> K"
  shows "wellFormed K cols (fold step fs st)"
  using assms(2,3)
proof (induction fs arbitrary: st)
  case Nil
  then show ?case by simp
next
  case (Cons f fs)
  from assms(1) have "step f st = st \<or>
      (\<exists>c. c \<in> set cols \<and> c \<noteq> [] \<and> c \<notin> snd st \<and> step f st = claim f c st)"
    unfolding claimStep_def by blast
  with Cons.prems have "wellFormed K cols (step f st)"
    by (auto intro: wellFormed_claim)
  with Cons show ?case by simp
qed

lemma set_unmappedFields: "set (unmappedFields catalog m) \<subseteq> set catalog"
  by (auto simp: unmappedFields_def)

lemma set_sortedFields: "set (sortedFields catalog cols) \<subseteq> set catalog"
  using set_unmappedFields by (auto simp: sortedFields_def sortBySpecificity_def Let_def)

lemma wellFormed_afterExactPass: "wellFormed (key ` set catalog) cols (afterExactPass catalog cols)"
  unfolding afterExactPass_def
  by (rule wellFormed_fold [OF exactStep_claim]) (simp_all add: wellFormed_def)

lemma wellFormed_afterCleanedPass: "wellFormed (key ` set catalog) cols (afterCleanedPass catalog cols)"
  unfolding afterCleanedPass_def Let_def
  using set_unmappedFields
  by (intro wellFormed_fold [OF cleanedStep_claim] wellFormed_afterExactPass) blast

lemma wellFormed_final:
  "wellFormed (key ` set catalog) cols
     (fold (fuzzyFieldStep cols) (sortedFields catalog cols) (afterCleanedPass catalog cols))"
  using set_sortedFields
  by (intro wellFormed_fold [OF fuzzyFieldStep_claim] wellFormed_afterCleanedPass) blast

subsection \<open>The field matcher: threshold and denylist\<close>

lemma isExactMatch_cleaned: "isExactMatch f c \<Longrightarrow> isCleanedMatch f c"
  by (auto simp: isExactMatch_def isCleanedMatch_def Let_def)

lemma exactLoop_find: "exactLoop f cols = find (isCleanedMatch f) cols"
  by (induction cols) (auto dest: isExactMatch_cleaned)

lemma fuzzyStep_accepts:
  assumes "fst best = [] \<or> (\<not> isDenylisted (toLowerCase (fst best)) \<and> threshold \<le> columnScore f (fst best))"
  shows "fst (fuzzyStep f c best) = [] \<or>
         (\<not> isDenylisted (toLowerCase (fst (fuzzyStep f c best))) \<and>
          threshold \<le> columnScore f (fst (fuzzyStep f c best)))"
  using assms by (cases best) (auto simp: fuzzyStep_def Let_def)

lemma fuzzyFold_accepts:
  assumes "fst best = [] \<or> (\<not> isDenylisted (toLowerCase (fst best)) \<and> threshold \<le> columnScore f (fst best))"
  shows "fst (fold (fuzzyStep f) cols best) = [] \<or>
         (\<not> isDenylisted (toLowerCase (fst (fold (fuzzyStep f) cols best))) \<and>
          threshold \<le> columnScore f (fst (fold (fuzzyStep f) cols best)))"
  using assms
proof (induction cols arbitrary: best)
  case Nil
  then show ?case by simp
next
  case (Cons c cols)
  from fuzzyStep_accepts [OF Cons.prems, of c] show ?case
    using Cons.IH [of "fuzzyStep f c best"] by simp
qed

lemma fuzzyLoop_accepts:
  "fst (fuzzyLoop f cols) = [] \<or>
   (\<not> isDenylisted (toLowerCase (fst (fuzzyLoop f cols))) \<and>
    threshold \<le> columnScore f (fst (fuzzyLoop f cols)))"
  unfolding fuzzyLoop_def by (rule fuzzyFold_accepts) simp

lemma not_isDenylisted_empty: "\<not> isDenylisted (toLowerCase [])"
  by (simp add: isDenylisted_def toLowerCase_def)

lemma findBestMatch_cases:
  assumes "findBestMatch f cols = Some c"
  shows "exactLoop f cols = Some c \<or>
         (exactLoop f cols = None \<and> c = fst (fuzzyLoop f cols) \<and> c \<noteq> [])"
  using assms by (auto simp: findBestMatch_def Let_def split: option.splits if_splits)

subsection \<open>The first loop of the matcher and the road tax scenario\<close>

lemma calculateSimilarity_bounds:
  "0 \<le> calculateSimilarity str1 str2 \<and> calculateSimilarity str1 str2 \<le> 1"
proof -
  define s1 where "s1 = stripNonAlnum (toLowerCase str1)"
  define s2 where "s2 = stripNonAlnum (toLowerCase str2)"
  define d where "d = matrixDistance s1 s2"
  define n where "n = max (length s1) (length s2)"
  have dn: "d \<le> n"
    unfolding d_def n_def matrixDistance_levenshtein by (rule levenshtein_le_max)
  have eq: "calculateSimilarity str1 str2 =
      (if s1 = s2 then 1
       else if includesStr s1 s2 \<or> includesStr s2 s1 then 8 / 10
       else if n = 0 then 1 else 1 - rat_of_nat d / rat_of_nat n)"
    by (simp add: calculateSimilarity_def Let_def s1_def s2_def d_def n_def)
  have "0 \<le> rat_of_nat d / rat_of_nat n" "rat_of_nat d / rat_of_nat n \<le> 1" if "n \<noteq> 0"
    using that dn by (simp_all add: divide_le_eq_1)
  then show ?thesis unfolding eq by auto
qed

lemma keywordScoreOf_le_1: "keywordScoreOf fieldKeywords columnKeywords columnLower \<le> 1"
proof -
  have inner: "fold (\<lambda>colKeyword ks. max ks (calculateSimilarity fk colKeyword)) cks ks \<le> 1"
    if "ks \<le> 1" for fk cks and ks :: rat
    using that
  proof (induction cks arbitrary: ks)
    case Nil
    then show ?case by simp
  next
    case (Cons ck cks)
    have "max ks (calculateSimilarity fk ck) \<le> 1"
      using Cons.prems calculateSimilarity_bounds [of fk ck] by simp
    then show ?case using Cons.IH by simp
  qed
  define g where "g = (\<lambda>fieldKeyword keywordScore.
          (let ks = fold (\<lambda>colKeyword ks. max ks (calculateSimilarity fieldKeyword colKeyword))
                         columnKeywords keywordScore
           in if includesStr columnLower fieldKeyword then max ks (7 / 10) else ks))"
  have step: "g fk ks \<le> 1" if "ks \<le> 1" for fk and ks :: rat
    using inner [OF that, of fk columnKeywords] by (simp add: g_def Let_def)
  have outer: "fold g fks ks \<le> 1" if "ks \<le> 1" for fks and ks :: rat
    using that
  proof (induction fks arbitrary: ks)
    case Nil
    then show ?case by simp
  next
    case (Cons fk fks)
    from step [OF Cons.prems] show ?case using Cons.IH by simp
  qed
  show ?thesis unfolding keywordScoreOf_def g_def [symmetric] by (rule outer) simp
qed

text \<open>When the key already has similarity 1 with the column and neither contains the
  other, the score is 1 and the boosts are not looked at.\<close>

lemma columnScore_key_similar:
  assumes "\<not> includesStr (toLowerCase (key f)) (toLowerCase c)"
    "\<not> includesStr (toLowerCase c) (toLowerCase (key f))"
    "\<not> includesStr (toLowerCase (label f)) (toLowerCase c)"
    "\<not> includesStr (toLowerCase c) (toLowerCase (label f))"
    "calculateSimilarity (toLowerCase (key f)) (toLowerCase c) = 1"
  shows "columnScore f c = 1"
proof -
  have a: "calculateSimilarity (toLowerCase (label f)) c \<le> 1"
    using calculateSimilarity_bounds by simp
  have b: "keywordScoreOf (getKeywords (label f)) (getKeywords c) (toLowerCase c) \<le> 1"
    by (rule keywordScoreOf_le_1)
  show ?thesis
    using assms a b by (simp add: columnScore_def Let_def max_def)
qed

lemma unmappedFields_empty: "unmappedFields catalog [] = catalog"
  by (simp add: unmappedFields_def truthy_def)

lemma fuzzyFieldStep_exhausted: "set cols \<subseteq> snd st \<Longrightarrow> fuzzyFieldStep cols f st = st"
proof -
  assume "set cols \<subseteq> snd st"
  then have "filter (\<lambda>col. col \<notin> snd st) cols = []" by (auto simp: filter_empty_conv)
  then show ?thesis
    by (simp add: fuzzyFieldStep_def Let_def findBestMatch_def fuzzyLoop_def)
qed

lemma fuzzyPass_exhausted: "set cols \<subseteq> snd st \<Longrightarrow> fold (fuzzyFieldStep cols) fs st = st"
  by (induction fs) (simp_all add: fuzzyFieldStep_exhausted)

lemma roadTax_alone_exact:
  "afterExactPass
     [\<lparr>key = ''roadTax'', label = ''Road tax (% tax on Ex showroom excl. subsidy) [130]''\<rparr>]
     [''Road Tax %''] = ([], {})"
  by code_simp

lemma roadTax_alone_cleaned:
  "afterCleanedPass
     [\<lparr>key = ''roadTax'', label = ''Road tax (% tax on Ex showroom excl. subsidy) [130]''\<rparr>]
     [''Road Tax %''] = ([(''roadTax'', ''Road Tax %'')], {''Road Tax %''})"
  unfolding afterCleanedPass_def roadTax_alone_exact Let_def fst_conv unmappedFields_empty
  by code_simp

lemma roadTax_catalog_exact: "afterExactPass BUSINESS_FIELDS [''Road Tax %''] = ([], {})"
  by code_simp

lemma roadTax_catalog_cleaned:
  "afterCleanedPass BUSINESS_FIELDS [''Road Tax %'']
     = ([(''roadTax'', ''Road Tax %'')], {''Road Tax %''})"
  unfolding afterCleanedPass_def roadTax_catalog_exact Let_def fst_conv unmappedFields_empty
  by code_simp

subsection \<open>The validator\<close>

lemma fold_validateField:
  "fold (validateField mappings columnNames) fs errs =
     errs @ concat (map (\<lambda>f. validateField mappings columnNames f []) fs)"
proof (induction fs arbitrary: errs)
  case Nil
  then show ?case by simp
next
  case (Cons f fs)
  have "validateField mappings columnNames f errs = errs @ validateField mappings columnNames f []"
    by (simp add: validateField_def split: option.splits)
  then show ?case by (simp add: Cons.IH)
qed

lemma validateField_alone:
  "validateField mappings columnNames f [] =
     (if \<not> truthy (map_of mappings (key f)) then [missingMessage f]
      else if truthy (map_of mappings (key f)) \<and> the (map_of mappings (key f)) \<notin> set columnNames
           then [invalidMessage f (the (map_of mappings (key f)))]
           else [])"
  by (simp add: validateField_def truthy_def split: option.splits)

lemma length_concat_cases:
  "length (concat (map (\<lambda>f. if P f then [a f] else if Q f then [b f] else []) fs)) =
     length (filter P fs) + length (filter (\<lambda>f. \<not> P f \<and> Q f) fs)"
  by (induction fs) auto

lemma indexOf_le: "i < length vs \<Longrightarrow> indexOf vs (vs ! i) \<le> i"
proof (induction vs arbitrary: i)
  case Nil
  then show ?case by simp
next
  case (Cons v vs)
  then show ?case by (cases i) auto
qed

lemma nth_indexOf: "v \<in> set vs \<Longrightarrow> indexOf vs v < length vs \<and> vs ! indexOf vs v = v"
  by (induction vs) auto

lemma indexOf_distinct: "distinct vs \<longleftrightarrow> (\<forall>i < length vs. indexOf vs (vs ! i) = i)"
proof
  assume d: "distinct vs"
  show "\<forall>i < length vs. indexOf vs (vs ! i) = i"
  proof (intro allI impI)
    fix i assume i: "i < length vs"
    then have "vs ! i \<in> set vs" by simp
    from nth_indexOf [OF this] d i show "indexOf vs (vs ! i) = i"
      by (metis nth_eq_iff_index_eq)
  qed
next
  assume a: "\<forall>i < length vs. indexOf vs (vs ! i) = i"
  show "distinct vs"
    unfolding distinct_conv_nth
  proof (intro allI impI)
    fix i j assume ij: "i < length vs" "j < length vs" "i \<noteq> j"
    show "vs ! i \<noteq> vs ! j"
    proof
      assume "vs ! i = vs ! j"
      with a ij have "i = j" by metis
      with ij show False by simp
    qed
  qed
qed

lemma duplicatesOf_empty: "duplicatesOf vs = [] \<longleftrightarrow> distinct vs"
proof -
  have "duplicatesOf vs = [] \<longleftrightarrow>
      (\<forall>p \<in> set (zip vs [0..<length vs]). indexOf vs (fst p) = snd p)"
    by (auto simp: duplicatesOf_def filter_empty_conv)
  also have "\<dots> \<longleftrightarrow> (\<forall>i < length vs. indexOf vs (vs ! i) = i)"
  proof -
    have "set (zip vs [0..<length vs]) = (\<lambda>i. (vs ! i, i)) ` {..<length vs}"
      by (auto simp: set_zip image_iff)
    then show ?thesis by auto
  qed
  finally show ?thesis by (simp add: indexOf_distinct)
qed

subsection \<open>The order of the third pass\<close>

lemma sortBySpecificity_sorted:
  "sorted_wrt (\<lambda>a b. specificity b \<le> specificity a) (sortBySpecificity fs)"
proof -
  have "sorted (map (\<lambda>field. - int (specificity field)) (sortBySpecificity fs))"
    unfolding sortBySpecificity_def by (rule sorted_sort_key)
  then show ?thesis by (simp add: sorted_map)
qed

lemma sortBySpecificity_stable:
  "filter (\<lambda>f. specificity f = k) (sortBySpecificity fs) = filter (\<lambda>f. specificity f = k) fs"
proof -
  have "filter (\<lambda>f. - int (specificity f) = - int k) (sortBySpecificity fs)
      = filter (\<lambda>f. - int (specificity f) = - int k) fs"
    unfolding sortBySpecificity_def by (rule sort_key_stable)
  then show ?thesis by simp
qed

lemma specificity_catalog:
  "map specificity BUSINESS_FIELDS = [6, 1, 5, 3, 9, 1, 10, 7, 6, 2, 4, 10, 8, 8]"
  by code_simp

lemma tokenCount_catalog:
  "map (\<lambda>f. tokenCount (label f)) BUSINESS_FIELDS = [6, 1, 5, 3, 9, 1, 10, 7, 6, 2, 4, 10, 8, 8]"
  by code_simp

lemma specificity_tokenCount:
  assumes "f \<in> set BUSINESS_FIELDS"
  shows "specificity f = tokenCount (label f)"
proof -
  have "map specificity BUSINESS_FIELDS = map (\<lambda>f. tokenCount (label f)) BUSINESS_FIELDS"
    by (simp only: specificity_catalog tokenCount_catalog)
  with assms show ?thesis by (simp only: map_eq_conv)
qed

lemma afterExactPass_no_columns: "afterExactPass catalog [] = ([], {})"
  unfolding afterExactPass_def
  by (induction catalog) (simp_all add: exactStep_def)

lemma afterCleanedPass_no_columns: "afterCleanedPass catalog [] = ([], {})"
proof -
  have "fold (cleanedStep []) fs st = st" for fs st
    by (induction fs) (simp_all add: cleanedStep_def)
  then show ?thesis
    by (simp add: afterCleanedPass_def afterExactPass_no_columns)
qed

text \<open>On a label with two spaces in a row the two counts differ: \<^verbatim>\<open>split(' ')\<close> counts
  the empty piece between the spaces.\<close>

lemma specificity_double_space:
  "specificity \<lparr>key = ''k'', label = ''Road  tax''\<rparr> = 3 \<and> tokenCount ''Road  tax'' = 2"
  by code_simp

subsection \<open>Precedence of the exact passes\<close>

lemma matchStep_claimStep: "matchStep cols step \<Longrightarrow> claimStep cols step"
  unfolding matchStep_def claimStep_def by blast

lemma exactStep_match: "matchStep cols (exactStep cols)"
  unfolding matchStep_def exactStep_def
  by (auto split: option.splits dest!: find_mem dest: isExactMatch_cleaned)

lemma cleanedStep_match: "matchStep cols (cleanedStep cols)"
  unfolding matchStep_def cleanedStep_def
  by (auto split: option.splits dest!: find_mem)

lemma claimStep_cases:
  assumes "claimStep cols step"
  obtains "step f st = st"
  | c where "c \<in> set cols" "c \<noteq> []" "c \<notin> snd st" "step f st = claim f c st"
  using assms unfolding claimStep_def by blast

lemma map_of_claim_other: "k \<noteq> key f \<Longrightarrow> map_of (fst (claim f c st)) k = map_of (fst st) k"
  by (simp add: claim_def update_conv')

lemma map_of_claim_same: "map_of (fst (claim f c st)) (key f) = Some c"
  by (simp add: claim_def update_conv')

lemma fold_preserves_binding:
  assumes "claimStep cols step" "k \<notin> key ` set fs"
  shows "map_of (fst (fold step fs st)) k = map_of (fst st) k"
  using assms(2)
proof (induction fs arbitrary: st)
  case Nil
  then show ?case by simp
next
  case (Cons f fs)
  then have k: "k \<noteq> key f" "k \<notin> key ` set fs" by auto
  have "map_of (fst (step f st)) k = map_of (fst st) k"
    by (rule claimStep_cases [OF assms(1), of f st]) (simp_all add: map_of_claim_other k)
  with Cons.IH [OF k(2), of "step f st"] show ?case by simp
qed

lemma fold_used_mono:
  assumes "claimStep cols step"
  shows "snd st \<subseteq> snd (fold step fs st)"
proof (induction fs arbitrary: st)
  case Nil
  then show ?case by simp
next
  case (Cons f fs)
  have "snd st \<subseteq> snd (step f st)"
    by (rule claimStep_cases [OF assms, of f st]) (auto simp: claim_def)
  with Cons [of "step f st"] show ?case by auto
qed

lemma justified_fold:
  assumes "matchStep cols step" "justified catalog st" "set fs \<subseteq> set catalog"
  shows "justified catalog (fold step fs st)"
  using assms(2,3)
proof (induction fs arbitrary: st)
  case Nil
  then show ?case by simp
next
  case (Cons f fs)
  from assms(1) have "step f st = st \<or>
      (\<exists>c. isCleanedMatch f c \<and> step f st = claim f c st)"
    unfolding matchStep_def by blast
  then have "justified catalog (step f st)"
  proof
    assume "step f st = st"
    with Cons.prems show ?thesis by simp
  next
    assume "\<exists>c. isCleanedMatch f c \<and> step f st = claim f c st"
    then obtain c where c: "isCleanedMatch f c" "step f st = claim f c st" by blast
    have "set (fst (claim f c st)) \<subseteq> insert (key f, c) (set (fst st))"
      unfolding claim_def fst_conv by (rule set_update_subset)
    with Cons.prems c show ?thesis
      unfolding justified_def by fastforce
  qed
  with Cons show ?case by simp
qed

text \<open>When every field of the list has a fresh key, no binding is overwritten, so every
  used column stays the value of some key.\<close>

lemma fold_used_values:
  assumes "claimStep cols step"
    and "distinct (map key fs)" "key ` set fs \<inter> fst ` set (fst st) = {}"
    and "snd st \<subseteq> snd ` set (fst st)"
  shows "snd (fold step fs st) \<subseteq> snd ` set (fst (fold step fs st))"
  using assms(2-)
proof (induction fs arbitrary: st)
  case Nil
  then show ?case by simp
next
  case (Cons f fs)
  have fresh: "key f \<notin> fst ` set (fst st)" using Cons.prems(2) by auto
  have step: "key ` set fs \<inter> fst ` set (fst (step f st)) = {} \<and>
              snd (step f st) \<subseteq> snd ` set (fst (step f st))"
  proof (rule claimStep_cases [OF assms(1), of f st])
    assume "step f st = st"
    with Cons.prems show ?thesis by auto
  next
    fix c assume c: "step f st = claim f c st"
    have m: "fst (claim f c st) = fst st @ [(key f, c)]"
      unfolding claim_def fst_conv using fresh by (rule update_fresh_append)
    have "key f \<notin> key ` set fs" using Cons.prems(1) by auto
    with Cons.prems(2,3) show ?thesis
      unfolding c m by (auto simp: claim_def)
  qed
  from Cons.prems(1) have "distinct (map key fs)" by simp
  from Cons.IH [OF this, of "step f st"] step show ?case by simp
qed

lemma fold_keys_subset:
  assumes "claimStep cols step"
  shows "fst ` set (fst (fold step fs st)) \<subseteq> fst ` set (fst st) \<union> key ` set fs"
proof (induction fs arbitrary: st)
  case Nil
  then show ?case by simp
next
  case (Cons f fs)
  have "fst ` set (fst (step f st)) \<subseteq> insert (key f) (fst ` set (fst st))"
  proof (rule claimStep_cases [OF assms, of f st])
    assume "step f st = st"
    then show ?thesis by auto
  next
    fix c assume c: "step f st = claim f c st"
    have "set (fst (claim f c st)) \<subseteq> insert (key f, c) (set (fst st))"
      unfolding claim_def fst_conv by (rule set_update_subset)
    then show ?thesis unfolding c by force
  qed
  with Cons [of "step f st"] show ?case by auto
qed

text \<open>The second pass, seen from one field of its list: the field is bound to a column
  that matches it after cleaning, or the column in question has been used.\<close>

lemma cleanedPass_field:
  assumes "f \<in> set fs" "distinct (map key fs)"
    and "column \<in> set cols" "[] \<notin> set cols" "isCleanedMatch f column"
  shows "(\<exists>c. map_of (fst (fold (cleanedStep cols) fs st)) (key f) = Some c \<and>
              c \<in> set cols \<and> isCleanedMatch f c)
         \<or> column \<in> snd (fold (cleanedStep cols) fs st)"
  using assms(1,2)
proof (induction fs arbitrary: st)
  case Nil
  then show ?case by simp
next
  case (Cons g fs)
  note cs = matchStep_claimStep [OF cleanedStep_match, of cols]
  show ?case
  proof (cases "g = f")
    case True
    from Cons.prems(2) True have notin: "key f \<notin> key ` set fs" by auto
    show ?thesis
    proof (cases "column \<in> snd st")
      case True
      then have "column \<in> snd (fold (cleanedStep cols) (g # fs) st)"
        using fold_used_mono [OF cs, of st "g # fs"] by blast
      then show ?thesis by simp
    next
      case False
      with assms(3,5) have "\<exists>c \<in> set cols. c \<notin> snd st \<and> isCleanedMatch f c" by blast
      then obtain c where c: "find (\<lambda>col. col \<notin> snd st \<and> isCleanedMatch f col) cols = Some c"
        by (cases "find (\<lambda>col. col \<notin> snd st \<and> isCleanedMatch f col) cols")
          (auto simp: find_None_iff)
      from find_mem [OF c] have c': "c \<in> set cols" "isCleanedMatch f c" by simp_all
      with assms(4) have "c \<noteq> []" by auto
      with c have "cleanedStep cols f st = claim f c st" by (simp add: cleanedStep_def)
      then have "map_of (fst (cleanedStep cols f st)) (key f) = Some c"
        by (simp add: map_of_claim_same)
      then have "map_of (fst (fold (cleanedStep cols) fs (cleanedStep cols f st))) (key f) = Some c"
        by (simp add: fold_preserves_binding [OF cs notin])
      with c' \<open>g = f\<close> show ?thesis by auto
    qed
  next
    case False
    with Cons.prems have "f \<in> set fs" "distinct (map key fs)" by auto
    from Cons.IH [OF this, of "cleanedStep cols g st"] show ?thesis by simp
  qed
qed

lemma truthy_Some: "truthy (Some c) \<longleftrightarrow> c \<noteq> []"
  by (simp add: truthy_def)

lemma unmapped_key_fresh:
  assumes "[] \<notin> snd ` set m" "f \<in> set (unmappedFields catalog m)"
  shows "key f \<notin> fst ` set m"
proof
  assume "key f \<in> fst ` set m"
  then obtain c where c: "map_of m (key f) = Some c"
    by (metis domD dom_map_of_conv_image_fst)
  then have "(key f, c) \<in> set m" by (rule map_of_SomeD)
  with assms(1) have "c \<noteq> []" by force
  with c assms(2) show False by (simp add: unmappedFields_def truthy_def)
qed

lemma mapped_not_unmapped:
  "truthy (map_of m k) \<Longrightarrow> k \<notin> key ` set (unmappedFields catalog m)"
  by (auto simp: unmappedFields_def)

lemma justified_afterExactPass: "justified catalog (afterExactPass catalog cols)"
  unfolding afterExactPass_def
  by (rule justified_fold [OF exactStep_match]) (simp_all add: justified_def)

lemma justified_afterCleanedPass: "justified catalog (afterCleanedPass catalog cols)"
  unfolding afterCleanedPass_def Let_def
  by (rule justified_fold [OF cleanedStep_match justified_afterExactPass set_unmappedFields])

text \<open>A binding that is truthy after a pass is not touched by the later passes.\<close>

lemma cleanedPass_keeps:
  assumes "truthy (map_of (fst (afterExactPass catalog cols)) k)"
  shows "map_of (fst (afterCleanedPass catalog cols)) k = map_of (fst (afterExactPass catalog cols)) k"
  unfolding afterCleanedPass_def Let_def
  by (rule fold_preserves_binding [OF matchStep_claimStep [OF cleanedStep_match]])
    (rule mapped_not_unmapped [OF assms])

lemma fuzzyPass_keeps:
  assumes "truthy (map_of (fst (afterCleanedPass catalog cols)) k)"
  shows "map_of (autoMapColumnsWith catalog cols) k = map_of (fst (afterCleanedPass catalog cols)) k"
proof -
  have "set (sortedFields catalog cols)
      = set (unmappedFields catalog (fst (afterCleanedPass catalog cols)))"
    by (simp add: sortedFields_def Let_def sortBySpecificity_def)
  with mapped_not_unmapped [OF assms, of catalog]
  have "k \<notin> key ` set (sortedFields catalog cols)" by simp
  then show ?thesis
    unfolding autoMapColumnsWith_def
    by (rule fold_preserves_binding [OF fuzzyFieldStep_claim])
qed

lemma used_values_afterExactPass:
  assumes "distinct (map key catalog)"
  shows "snd (afterExactPass catalog cols) \<subseteq> snd ` set (fst (afterExactPass catalog cols))"
  unfolding afterExactPass_def
  by (rule fold_used_values [OF exactStep_claim assms]) simp_all

lemma used_values_afterCleanedPass:
  assumes "distinct (map key catalog)"
  shows "snd (afterCleanedPass catalog cols) \<subseteq> snd ` set (fst (afterCleanedPass catalog cols))"
proof -
  let ?st = "afterExactPass catalog cols"
  have wf: "[] \<notin> snd ` set (fst ?st)"
    using wellFormed_afterExactPass [of catalog cols] by (simp add: wellFormed_def)
  have d: "distinct (map key (unmappedFields catalog (fst ?st)))"
    using assms by (simp add: unmappedFields_def distinct_map_filter)
  have fresh: "key ` set (unmappedFields catalog (fst ?st)) \<inter> fst ` set (fst ?st) = {}"
    using unmapped_key_fresh [OF wf] by blast
  show ?thesis
    unfolding afterCleanedPass_def Let_def
    by (rule fold_used_values [OF cleanedStep_claim d fresh used_values_afterExactPass [OF assms]])
qed

lemma isCleanedMatch_normKeys:
  "isCleanedMatch f c \<longleftrightarrow> stripNonAlnum (toLowerCase c) \<in> set (normKeys f)"
  by (auto simp: isCleanedMatch_def normKeys_def Let_def)

lemma catalog_normKeys:
  "concat (map (\<lambda>f. map (\<lambda>n. (n, key f)) (normKeys f)) BUSINESS_FIELDS) =
    [(''exshowroomprice'', ''exShowroomPrice''),
     (''exshowroompriceexclincentivessubsidy'', ''exShowroomPrice''),
     (''emps'', ''emps''), (''emps'', ''emps''),
     (''statesubsidy'', ''stateSubsidy''),
     (''statesubsidyclaimedafterdelivery'', ''stateSubsidy''),
     (''postgstdiscount'', ''postGstDiscount''),
     (''postgstdiscount'', ''postGstDiscount''), (''p1total'', ''p1Total''),
     (''p1totalexclinsuranceandrtobutinclsubsidys'', ''p1Total''),
     (''insurance'', ''insurance''), (''insurance'', ''insurance''),
     (''municipaltax'', ''municipalTax''),
     (''municipaltaxtaxonexshowroomexclsubsidy130'', ''municipalTax''),
     (''rtoroadsafety'', ''rtoRoadSafety''),
     (''rtoroadsafetytaxcess'', ''rtoRoadSafety''),
     (''smartcardfee'', ''smartCardFee''),
     (''smartcardfeertoregistration'', ''smartCardFee''),
     (''postalcharges'', ''postalCharges''),
     (''postalcharges'', ''postalCharges''),
     (''servicecharge'', ''serviceCharge''),
     (''servicechargeandpenality'', ''serviceCharge''),
     (''roadtax'', ''roadTax''),
     (''roadtaxtaxonexshowroomexclsubsidy130'', ''roadTax''),
     (''effectiveonroadcore'', ''effectiveOnRoadCore''),
     (''effectiveonroadpricetocustomercore'', ''effectiveOnRoadCore''),
     (''effectiveonroadpro'', ''effectiveOnRoadPro''),
     (''effectiveonroadpricetocustomerpro'', ''effectiveOnRoadPro'')]"
  by code_simp

lemma catalog_normKeys_functional:
  "distinct (map fst (remdups (concat (map (\<lambda>f. map (\<lambda>n. (n, key f)) (normKeys f)) BUSINESS_FIELDS))))"
  unfolding catalog_normKeys by simp

lemma distinct_catalog_keys: "distinct (map key BUSINESS_FIELDS)"
  by (simp add: BUSINESS_FIELDS_def)

text \<open>On the catalog of the source a column matches at most one field after cleaning.\<close>

lemma catalog_match_unique:
  assumes "f \<in> set BUSINESS_FIELDS" "g \<in> set BUSINESS_FIELDS"
    and "isCleanedMatch f c" "isCleanedMatch g c"
  shows "f = g"
proof -
  let ?tbl = "concat (map (\<lambda>f. map (\<lambda>n. (n, key f)) (normKeys f)) BUSINESS_FIELDS)"
  let ?n = "stripNonAlnum (toLowerCase c)"
  have "(?n, key f) \<in> set ?tbl" "(?n, key g) \<in> set ?tbl"
    using assms by (auto simp: isCleanedMatch_normKeys)
  then have "(?n, key f) \<in> set (remdups ?tbl)" "(?n, key g) \<in> set (remdups ?tbl)"
    by simp_all
  with catalog_normKeys_functional have "key f = key g"
    by (rule eq_key_imp_eq_value)
  with assms(1,2) distinct_catalog_keys show ?thesis
    by (auto simp: distinct_map dest: inj_onD)
qed

text \<open>The core of the precedence of the exact passes.\<close>

lemma cleaned_match_bound:
  assumes "distinct (map key catalog)" "field \<in> set catalog"
    and "column \<in> set cols" "[] \<notin> set cols" "isCleanedMatch field column"
  shows "(\<exists>c. map_of (fst (afterCleanedPass catalog cols)) (key field) = Some c \<and>
              map_of (autoMapColumnsWith catalog cols) (key field) = Some c \<and>
              c \<in> set cols \<and> isCleanedMatch field c)
         \<or> (\<exists>g \<in> set catalog. g \<noteq> field \<and> isCleanedMatch g column \<and>
              map_of (autoMapColumnsWith catalog cols) (key g) = Some column)"
proof -
  let ?st1 = "afterExactPass catalog cols"
  let ?st2 = "afterCleanedPass catalog cols"
  let ?rem = "unmappedFields catalog (fst ?st1)"
  have st2: "?st2 = fold (cleanedStep cols) ?rem ?st1"
    by (simp add: afterCleanedPass_def Let_def)
  have wf2: "wellFormed (key ` set catalog) cols ?st2" by (rule wellFormed_afterCleanedPass)
  have inj: "inj_on key (set catalog)" using assms(1) by (simp add: distinct_map)
  \<comment> \<open>a binding of the field after the second pass is a cleaned match and is final\<close>
  have final: "map_of (autoMapColumnsWith catalog cols) (key g) = Some c \<and> c \<in> set cols \<and>
      isCleanedMatch g c" if "g \<in> set catalog" "map_of (fst ?st2) (key g) = Some c" for g c
  proof -
    from that(2) have mem: "(key g, c) \<in> set (fst ?st2)" by (rule map_of_SomeD)
    with wf2 have c: "c \<noteq> []" "c \<in> set cols" by (force simp: wellFormed_def)+
    from mem justified_afterCleanedPass [of catalog cols]
    obtain h where h: "h \<in> set catalog" "key h = key g" "isCleanedMatch h c"
      unfolding justified_def by fastforce
    with inj that(1) have "h = g" by (auto dest: inj_onD)
    with h have m: "isCleanedMatch g c" by simp
    from c that(2) have "truthy (map_of (fst ?st2) (key g))" by (simp add: truthy_def)
    from fuzzyPass_keeps [OF this] that(2) c m show ?thesis by simp
  qed
  have "(\<exists>c. map_of (fst ?st2) (key field) = Some c \<and> c \<in> set cols \<and> isCleanedMatch field c)
        \<or> column \<in> snd ?st2"
  proof (cases "truthy (map_of (fst ?st1) (key field))")
    case True
    then obtain c where c: "map_of (fst ?st1) (key field) = Some c"
      by (cases "map_of (fst ?st1) (key field)") (auto simp: truthy_def)
    with cleanedPass_keeps [OF True] have "map_of (fst ?st2) (key field) = Some c" by simp
    with final [OF assms(2) this] show ?thesis by blast
  next
    case False
    with assms(2) have "field \<in> set ?rem" by (simp add: unmappedFields_def)
    moreover have "distinct (map key ?rem)"
      using assms(1) by (simp add: unmappedFields_def distinct_map_filter)
    ultimately show ?thesis
      unfolding st2 using assms(3-5) by (rule cleanedPass_field)
  qed
  then show ?thesis
  proof
    assume "\<exists>c. map_of (fst ?st2) (key field) = Some c \<and> c \<in> set cols \<and> isCleanedMatch field c"
    then obtain c where "map_of (fst ?st2) (key field) = Some c" by blast
    with final [OF assms(2) this] show ?thesis by blast
  next
    assume "column \<in> snd ?st2"
    with used_values_afterCleanedPass [OF assms(1), of cols]
    obtain k where k: "(k, column) \<in> set (fst ?st2)" by force
    with wf2 have "map_of (fst ?st2) k = Some column" by (simp add: wellFormed_def)
    moreover from k wf2 obtain g where g: "g \<in> set catalog" "key g = k"
      by (force simp: wellFormed_def)
    ultimately have b: "map_of (fst ?st2) (key g) = Some column" by simp
    show ?thesis
    proof (cases "g = field")
      case True
      with b final [OF assms(2), of column] show ?thesis by blast
    next
      case False
      with final [OF g(1) b] g(1) show ?thesis by blast
    qed
  qed
qed

lemma insurance_exact:
  "afterExactPass BUSINESS_FIELDS [''Insurance'', ''insurance'']
     = ([(''insurance'', ''Insurance'')], {''Insurance''})"
  by code_simp

subsection \<open>What the third pass can bind\<close>

lemma findBestMatch_accepts:
  assumes "findBestMatch f pool = Some c"
  shows "isCleanedMatch f c \<or> (\<not> isDenylisted (toLowerCase c) \<and> threshold \<le> columnScore f c)"
  using findBestMatch_cases [OF assms]
proof
  assume "exactLoop f pool = Some c"
  then show ?thesis by (simp add: exactLoop_find find_mem)
next
  assume "exactLoop f pool = None \<and> c = fst (fuzzyLoop f pool) \<and> c \<noteq> []"
  with fuzzyLoop_accepts [of f pool] show ?thesis by auto
qed

lemma justified_accepted: "justified catalog st \<Longrightarrow> accepted catalog st"
  unfolding justified_def accepted_def by fast

lemma accepted_fuzzyPass:
  assumes "accepted catalog st" "set fs \<subseteq> set catalog"
  shows "accepted catalog (fold (fuzzyFieldStep cols) fs st)"
  using assms
proof (induction fs arbitrary: st)
  case Nil
  then show ?case by simp
next
  case (Cons f fs)
  let ?avail = "filter (\<lambda>col. col \<notin> snd st) cols"
  have "accepted catalog (fuzzyFieldStep cols f st)"
  proof (cases "findBestMatch f ?avail")
    case None
    with Cons.prems show ?thesis by (simp add: fuzzyFieldStep_def)
  next
    case (Some c)
    show ?thesis
    proof (cases "c = []")
      case True
      with Some Cons.prems show ?thesis by (simp add: fuzzyFieldStep_def)
    next
      case False
      with Some have s: "fuzzyFieldStep cols f st = claim f c st"
        by (simp add: fuzzyFieldStep_def)
      have sub: "set (fst (claim f c st)) \<subseteq> insert (key f, c) (set (fst st))"
        unfolding claim_def fst_conv by (rule set_update_subset)
      from findBestMatch_accepts [OF Some] Cons.prems sub show ?thesis
        unfolding s accepted_def by fastforce
    qed
  qed
  with Cons show ?case by simp
qed

lemma accepted_final:
  "accepted catalog
     (fold (fuzzyFieldStep cols) (sortedFields catalog cols) (afterCleanedPass catalog cols))"
  by (rule accepted_fuzzyPass [OF justified_accepted [OF justified_afterCleanedPass] set_sortedFields])

lemma autoMapColumns_accepted:
  assumes "(k, c) \<in> set (autoMapColumnsWith catalog cols)"
  shows "\<exists>f \<in> set catalog. key f = k \<and>
           (isCleanedMatch f c \<or> (\<not> isDenylisted (toLowerCase c) \<and> 1 / 2 \<le> columnScore f c))"
  using accepted_final [of catalog cols] assms
  unfolding accepted_def autoMapColumnsWith_def threshold_def by fastforce

lemma fold_truthy_kept:
  assumes "claimStep cols step" "truthy (map_of (fst st) k)"
  shows "truthy (map_of (fst (fold step fs st)) k)"
  using assms(2)
proof (induction fs arbitrary: st)
  case Nil
  then show ?case by simp
next
  case (Cons f fs)
  have "truthy (map_of (fst (step f st)) k)"
  proof (rule claimStep_cases [OF assms(1), of f st])
    assume "step f st = st"
    with Cons.prems show ?thesis by simp
  next
    fix c assume "c \<noteq> []" "step f st = claim f c st"
    with Cons.prems show ?thesis
      by (cases "k = key f") (simp_all add: map_of_claim_same map_of_claim_other truthy_def)
  qed
  with Cons.IH show ?case by simp
qed

text \<open>After the second pass every column that matches a still unmapped field after
  cleaning is used, when no header is empty.\<close>

lemma cleanedPass_exhausts:
  assumes "[] \<notin> set cols" "f \<in> set fs"
  shows "truthy (map_of (fst (fold (cleanedStep cols) fs st)) (key f))
         \<or> (\<forall>c \<in> set cols. isCleanedMatch f c \<longrightarrow> c \<in> snd (fold (cleanedStep cols) fs st))"
  using assms(2)
proof (induction fs arbitrary: st)
  case Nil
  then show ?case by simp
next
  case (Cons g fs)
  note cs = matchStep_claimStep [OF cleanedStep_match, of cols]
  show ?case
  proof (cases "g = f")
    case True
    show ?thesis
    proof (cases "find (\<lambda>col. col \<notin> snd st \<and> isCleanedMatch f col) cols")
      case None
      then have "\<forall>c \<in> set cols. isCleanedMatch f c \<longrightarrow> c \<in> snd st"
        by (auto simp: find_None_iff)
      moreover have "snd st \<subseteq> snd (fold (cleanedStep cols) (g # fs) st)"
        by (rule fold_used_mono [OF cs])
      ultimately show ?thesis by blast
    next
      case (Some c)
      from find_mem [OF Some] assms(1) have "c \<noteq> []" by auto
      with Some have "cleanedStep cols f st = claim f c st" by (simp add: cleanedStep_def)
      with \<open>c \<noteq> []\<close> have "truthy (map_of (fst (cleanedStep cols f st)) (key f))"
        by (simp add: map_of_claim_same truthy_def)
      from fold_truthy_kept [OF cs this, of fs] True show ?thesis by simp
    qed
  next
    case False
    with Cons.prems have "f \<in> set fs" by simp
    from Cons.IH [OF this, of "cleanedStep cols g st"] show ?thesis by simp
  qed
qed

text \<open>In the third pass the first loop of \<^verbatim>\<open>findBestMatch\<close> finds nothing, when no header
  is empty: the first two passes have used every column it could return.\<close>

lemma exactLoop_dead_in_fuzzyPass:
  assumes "[] \<notin> set cols" "f \<in> set (sortedFields catalog cols)"
    and "snd (afterCleanedPass catalog cols) \<subseteq> snd st"
  shows "exactLoop f (filter (\<lambda>col. col \<notin> snd st) cols) = None"
proof -
  let ?st1 = "afterExactPass catalog cols"
  let ?st2 = "afterCleanedPass catalog cols"
  let ?rem = "unmappedFields catalog (fst ?st1)"
  note cs = matchStep_claimStep [OF cleanedStep_match, of cols]
  have st2: "?st2 = fold (cleanedStep cols) ?rem ?st1"
    by (simp add: afterCleanedPass_def Let_def)
  from assms(2) have f: "f \<in> set catalog" "\<not> truthy (map_of (fst ?st2) (key f))"
    by (simp_all add: sortedFields_def Let_def sortBySpecificity_def unmappedFields_def)
  have "\<not> truthy (map_of (fst ?st1) (key f))"
    using fold_truthy_kept [OF cs, of ?st1 "key f" ?rem] f(2) unfolding st2 by blast
  with f(1) have "f \<in> set ?rem" by (simp add: unmappedFields_def)
  from cleanedPass_exhausts [OF assms(1) this, of ?st1] f(2)
  have "\<forall>c \<in> set cols. isCleanedMatch f c \<longrightarrow> c \<in> snd ?st2"
    unfolding st2 by blast
  with assms(3) show ?thesis
    by (auto simp: exactLoop_find find_None_iff)
qed

subsection \<open>The recurrence is a distance\<close>

lemma levenshtein_sym: "levenshtein a b i j = levenshtein b a j i"
  by (induction a b i j rule: levenshtein.induct) (simp_all add: min.commute eq_commute)

lemma levenshtein_lower: "i - j \<le> levenshtein a b i j \<and> j - i \<le> levenshtein a b i j"
  by (induction a b i j rule: levenshtein.induct) auto

lemma levenshtein_eq_0:
  "levenshtein a b i j = 0 \<longleftrightarrow> i = j \<and> (\<forall>k < i. a ! k = b ! k)"
proof (induction a b i j rule: levenshtein.induct)
  case (1 a b j)
  then show ?case by auto
next
  case (2 a b i)
  then show ?case by auto
next
  case (3 a b i j)
  have "levenshtein a b (Suc i) (Suc j) = 0 \<longleftrightarrow> levenshtein a b i j = 0 \<and> a ! i = b ! j"
    by (auto simp: min_def split: if_splits)
  also have "\<dots> \<longleftrightarrow> i = j \<and> (\<forall>k < i. a ! k = b ! k) \<and> a ! i = b ! j"
    using 3 by auto
  also have "\<dots> \<longleftrightarrow> Suc i = Suc j \<and> (\<forall>k < Suc i. a ! k = b ! k)"
    by (auto simp: less_Suc_eq)
  finally show ?case .
qed

lemma editDistance_Nil2 [simp]: "editDistance xs [] = length xs"
  by (cases xs) simp_all

lemma edits_editDistance: "edits xs ys (editDistance xs ys)"
proof (induction xs ys rule: editDistance.induct)
  case (1 ys)
  show ?case by (induction ys) (auto intro: edits.intros)
next
  case (2 x xs)
  have "edits xs [] (length xs)" for xs :: string
    by (induction xs) (auto intro: edits.intros)
  from edits.delete [OF this, of x xs] show ?case by simp
next
  case (3 x xs y ys)
  let ?a = "editDistance xs (y # ys) + 1" and ?b = "editDistance (x # xs) ys + 1"
  let ?c = "editDistance xs ys + (if x = y then 0 else 1)"
  have a: "edits (x # xs) (y # ys) ?a" using 3(1) by (auto intro: edits.delete)
  have b: "edits (x # xs) (y # ys) ?b" using 3(2) by (auto intro: edits.insert)
  have c: "edits (x # xs) (y # ys) ?c"
    using 3(3) by (auto intro: edits.keep edits.substitute)
  have "editDistance (x # xs) (y # ys) = ?a \<or> editDistance (x # xs) (y # ys) = ?b
      \<or> editDistance (x # xs) (y # ys) = ?c"
    by (simp add: min_def)
  with a b c show ?case by metis
qed

lemma editDistance_delete: "editDistance (x # xs) ys \<le> Suc (editDistance xs ys)"
  by (cases ys) simp_all

lemma editDistance_insert: "editDistance xs (y # ys) \<le> Suc (editDistance xs ys)"
  by (cases xs) simp_all

lemma editDistance_least: "edits xs ys n \<Longrightarrow> editDistance xs ys \<le> n"
proof (induction rule: edits.induct)
  case nil
  show ?case by simp
next
  case (keep xs ys n x)
  then show ?case by (simp add: min.coboundedI2)
next
  case (substitute xs ys n x y)
  then show ?case by (simp add: min.coboundedI2)
next
  case (delete xs ys n x)
  with editDistance_delete [of x xs ys] show ?case by simp
next
  case (insert xs ys n y)
  with editDistance_insert [of xs y ys] show ?case by simp
qed

lemma edits_snoc:
  assumes "edits xs ys n"
  shows "edits (xs @ [x]) (ys @ [x]) n" "edits (xs @ [x]) (ys @ [y]) (Suc n)"
    "edits (xs @ [x]) ys (Suc n)" "edits xs (ys @ [y]) (Suc n)"
  using assms
proof (induction rule: edits.induct)
  case nil
  {
    case 1 show ?case using edits.keep [OF edits.nil] by simp
  next
    case 2 show ?case using edits.substitute [OF edits.nil] by simp
  next
    case 3 show ?case using edits.delete [OF edits.nil] by simp
  next
    case 4 show ?case using edits.insert [OF edits.nil] by simp
  }
next
  case (keep xs ys n z)
  {
    case 1 show ?case using edits.keep [OF keep.IH(1)] by simp
  next
    case 2 show ?case using edits.keep [OF keep.IH(2)] by simp
  next
    case 3 show ?case using edits.keep [OF keep.IH(3)] by simp
  next
    case 4 show ?case using edits.keep [OF keep.IH(4)] by simp
  }
next
  case (substitute xs ys n z w)
  {
    case 1 show ?case using edits.substitute [OF substitute.IH(1)] by simp
  next
    case 2 show ?case using edits.substitute [OF substitute.IH(2)] by simp
  next
    case 3 show ?case using edits.substitute [OF substitute.IH(3)] by simp
  next
    case 4 show ?case using edits.substitute [OF substitute.IH(4)] by simp
  }
next
  case (delete xs ys n z)
  {
    case 1 show ?case using edits.delete [OF delete.IH(1)] by simp
  next
    case 2 show ?case using edits.delete [OF delete.IH(2)] by simp
  next
    case 3 show ?case using edits.delete [OF delete.IH(3)] by simp
  next
    case 4 show ?case using edits.delete [OF delete.IH(4)] by simp
  }
next
  case (insert xs ys n w)
  {
    case 1 show ?case using edits.insert [OF insert.IH(1)] by simp
  next
    case 2 show ?case using edits.insert [OF insert.IH(2)] by simp
  next
    case 3 show ?case using edits.insert [OF insert.IH(3)] by simp
  next
    case 4 show ?case using edits.insert [OF insert.IH(4)] by simp
  }
qed

lemma edits_rev: "edits xs ys n \<Longrightarrow> edits (rev xs) (rev ys) n"
proof (induction rule: edits.induct)
  case nil
  show ?case by (simp add: edits.nil)
next
  case (keep xs ys n x)
  from edits_snoc(1) [OF keep.IH] show ?case by simp
next
  case (substitute xs ys n x y)
  from edits_snoc(2) [OF substitute.IH] show ?case by simp
next
  case (delete xs ys n x)
  from edits_snoc(3) [OF delete.IH] show ?case by simp
next
  case (insert xs ys n y)
  from edits_snoc(4) [OF insert.IH] show ?case by simp
qed

lemma levenshtein_editDistance:
  "i \<le> length a \<Longrightarrow> j \<le> length b \<Longrightarrow>
   levenshtein a b i j = editDistance (rev (take i a)) (rev (take j b))"
proof (induction a b i j rule: levenshtein.induct)
  case (1 a b j)
  then show ?case by simp
next
  case (2 a b i)
  then show ?case by simp
next
  case (3 a b i j)
  then have i: "i < length a" and j: "j < length b" by simp_all
  have ta: "rev (take (Suc i) a) = a ! i # rev (take i a)"
    using i by (simp add: take_Suc_conv_app_nth)
  have tb: "rev (take (Suc j) b) = b ! j # rev (take j b)"
    using j by (simp add: take_Suc_conv_app_nth)
  from 3 i j show ?case
    by (simp add: ta tb del: rev_rev_ident)
qed

text \<open>The recurrence on prefixes gives the least cost of an edit script.\<close>

lemma levenshtein_edits:
  "edits a b (levenshtein a b (length a) (length b)) \<and>
   (\<forall>n. edits a b n \<longrightarrow> levenshtein a b (length a) (length b) \<le> n)"
proof -
  have eq: "levenshtein a b (length a) (length b) = editDistance (rev a) (rev b)"
    by (simp add: levenshtein_editDistance)
  have "edits (rev a) (rev b) (editDistance (rev a) (rev b))" by (rule edits_editDistance)
  from edits_rev [OF this] have 1: "edits a b (editDistance (rev a) (rev b))" by simp
  have 2: "editDistance (rev a) (rev b) \<le> n" if "edits a b n" for n
    using editDistance_least [OF edits_rev [OF that]] .
  from 1 2 show ?thesis unfolding eq by blast
qed

subsection \<open>The matcher of the earlier revision\<close>

text \<open>The loop of the earlier revision keeps the first candidate of highest score among
  those that reach its threshold.\<close>

lemma fuzzyFold_page_best:
  assumes "0 \<le> snd best"
    and "\<forall>c \<in> S. columnScore_page f c < threshold_page \<or> columnScore_page f c \<le> snd best"
    and "(snd best = 0 \<and> fst best = []) \<or>
         (fst best \<in> S \<and> snd best = columnScore_page f (fst best) \<and> threshold_page \<le> snd best)"
  shows "(\<forall>c \<in> S \<union> set cols. columnScore_page f c < threshold_page
            \<or> columnScore_page f c \<le> snd (fold (fuzzyStep_page f) cols best)) \<and>
         ((snd (fold (fuzzyStep_page f) cols best) = 0 \<and> fst (fold (fuzzyStep_page f) cols best) = []) \<or>
          (fst (fold (fuzzyStep_page f) cols best) \<in> S \<union> set cols \<and>
           snd (fold (fuzzyStep_page f) cols best)
             = columnScore_page f (fst (fold (fuzzyStep_page f) cols best)) \<and>
           threshold_page \<le> snd (fold (fuzzyStep_page f) cols best)))"
  using assms
proof (induction cols arbitrary: best S)
  case Nil
  then show ?case by simp
next
  case (Cons c cols)
  obtain bm bs where best: "best = (bm, bs)" by (cases best)
  let ?s = "columnScore_page f c"
  let ?b = "fuzzyStep_page f c best"
  from Cons.prems have p1: "0 \<le> bs"
    and p2: "\<forall>c' \<in> S. columnScore_page f c' < threshold_page \<or> columnScore_page f c' \<le> bs"
    and p3: "(bs = 0 \<and> bm = []) \<or> (bm \<in> S \<and> bs = columnScore_page f bm \<and> threshold_page \<le> bs)"
    by (simp_all add: best)
  have step: "0 \<le> snd ?b \<and>
      (\<forall>c' \<in> insert c S. columnScore_page f c' < threshold_page \<or> columnScore_page f c' \<le> snd ?b) \<and>
      ((snd ?b = 0 \<and> fst ?b = []) \<or>
       (fst ?b \<in> insert c S \<and> snd ?b = columnScore_page f (fst ?b) \<and> threshold_page \<le> snd ?b))"
  proof (cases "?s > bs \<and> ?s \<ge> threshold_page")
    case True
    then have b: "?b = (c, ?s)" by (simp add: fuzzyStep_page_def best Let_def)
    from True p1 have "0 \<le> ?s" by simp
    moreover have "\<forall>c' \<in> insert c S. columnScore_page f c' < threshold_page \<or> columnScore_page f c' \<le> ?s"
      using p2 True by auto
    ultimately show ?thesis unfolding b using True by simp
  next
    case False
    then have b: "?b = (bm, bs)" by (auto simp: fuzzyStep_page_def best Let_def)
    have "?s < threshold_page \<or> ?s \<le> bs" using False by auto
    with p1 p2 p3 show ?thesis unfolding b by auto
  qed
  from Cons.IH [of ?b "insert c S"] step show ?case by simp
qed

lemma findBestMatch_page_best:
  assumes "findBestMatch_page f pool = Some c"
  shows "c \<in> set pool \<and> 3 / 10 \<le> columnScore_page f c \<and>
         (\<forall>c' \<in> set pool. columnScore_page f c' \<le> columnScore_page f c)"
proof -
  let ?r = "fold (fuzzyStep_page f) pool ([], 0)"
  from assms have c: "c = fst ?r" "c \<noteq> []"
    by (auto simp: findBestMatch_page_def Let_def split: if_splits)
  from fuzzyFold_page_best [of "([], 0)" "{}" f pool] c
  have a: "\<forall>c' \<in> set pool. columnScore_page f c' < threshold_page \<or> columnScore_page f c' \<le> snd ?r"
    and b: "c \<in> set pool" "snd ?r = columnScore_page f c" "threshold_page \<le> snd ?r"
    by auto
  from a b show ?thesis by (fastforce simp: threshold_page_def)
qed

lemma findBestMatch_page_some:
  assumes "[] \<notin> set pool" "c \<in> set pool" "3 / 10 \<le> columnScore_page f c"
  shows "findBestMatch_page f pool \<noteq> None"
proof -
  let ?r = "fold (fuzzyStep_page f) pool ([], 0)"
  from fuzzyFold_page_best [of "([], 0)" "{}" f pool]
  have a: "\<forall>c' \<in> set pool. columnScore_page f c' < threshold_page \<or> columnScore_page f c' \<le> snd ?r"
    and b: "(snd ?r = 0 \<and> fst ?r = []) \<or> fst ?r \<in> set pool"
    by auto
  from a assms(2,3) have "3 / 10 \<le> snd ?r" by (fastforce simp: threshold_page_def)
  with b have "fst ?r \<in> set pool" by auto
  with assms(1) have "fst ?r \<noteq> []" by auto
  then show ?thesis by (simp add: findBestMatch_page_def Let_def)
qed

lemma findBestMatch_page_none:
  assumes "\<forall>c \<in> set pool. columnScore_page f c < 3 / 10"
  shows "findBestMatch_page f pool = None"
proof (cases "findBestMatch_page f pool")
  case None
  then show ?thesis .
next
  case (Some c)
  from findBestMatch_page_best [OF Some] assms show ?thesis by force
qed

text \<open>Between an earlier cleaned match and a later exact match the earlier revision takes
  the exact one.\<close>

lemma page_exact_beats_cleaned:
  "findBestMatch_page \<lparr>key = ''roadTax'', label = ''Road tax''\<rparr> [''Road-Tax'', ''roadtax'']
     = Some ''roadtax''"
  by code_simp

subsection \<open>The third pass, field by field\<close>

text \<open>The third pass, seen from one field of its list: the field is offered the columns
  that the fields before it have left, keeps what \<^verbatim>\<open>findBestMatch\<close> picks from them, and
  the picks of the fields before it are not in its pool.\<close>

lemma fuzzyPass_field:
  assumes "distinct (map key fs)" "fs = pre @ f # post" "wellFormed K cols st0"
    and "key ` set fs \<subseteq> K"
  shows "map_of (fst (fold (fuzzyFieldStep cols) fs st0)) (key f) =
           (case findBestMatch f
                   (filter (\<lambda>c. c \<notin> snd (fold (fuzzyFieldStep cols) pre st0)) cols) of
              Some c \<Rightarrow> if c \<noteq> [] then Some c else map_of (fst st0) (key f)
            | None \<Rightarrow> map_of (fst st0) (key f))"
    and "\<forall>g \<in> set pre. \<forall>c. map_of (fst (fold (fuzzyFieldStep cols) fs st0)) (key g) = Some c \<longrightarrow>
           c \<notin> set (filter (\<lambda>c. c \<notin> snd (fold (fuzzyFieldStep cols) pre st0)) cols)"
proof -
  note cs = fuzzyFieldStep_claim [of cols]
  let ?st = "fold (fuzzyFieldStep cols) pre st0"
  let ?pool = "filter (\<lambda>c. c \<notin> snd ?st) cols"
  let ?fin = "fold (fuzzyFieldStep cols) fs st0"
  have fin: "?fin = fold (fuzzyFieldStep cols) post (fuzzyFieldStep cols f ?st)"
    by (simp add: assms(2))
  from assms(1,2) have k1: "key f \<notin> key ` set pre" and k2: "key f \<notin> key ` set post"
    by auto
  have pre: "map_of (fst ?st) (key f) = map_of (fst st0) (key f)"
    by (rule fold_preserves_binding [OF cs k1])
  have post: "map_of (fst ?fin) (key f) = map_of (fst (fuzzyFieldStep cols f ?st)) (key f)"
    unfolding fin by (rule fold_preserves_binding [OF cs k2])
  show "map_of (fst ?fin) (key f) =
      (case findBestMatch f ?pool of
         Some c \<Rightarrow> if c \<noteq> [] then Some c else map_of (fst st0) (key f)
       | None \<Rightarrow> map_of (fst st0) (key f))"
    unfolding post
    by (simp add: fuzzyFieldStep_def Let_def pre map_of_claim_same split: option.splits)
  have wf: "wellFormed K cols ?st"
    using assms(2,4) by (intro wellFormed_fold [OF cs assms(3)]) auto
  show "\<forall>g \<in> set pre. \<forall>c. map_of (fst ?fin) (key g) = Some c \<longrightarrow> c \<notin> set ?pool"
  proof (intro ballI allI impI)
    fix g c assume g: "g \<in> set pre" and m: "map_of (fst ?fin) (key g) = Some c"
    from k1 g have "key g \<noteq> key f" by (metis imageI)
    moreover from assms(1,2) have "key ` set pre \<inter> key ` set post = {}" by auto
    with g have "key g \<notin> key ` set post" by blast
    ultimately have "key g \<notin> key ` set (f # post)" by simp
    then have "map_of (fst (fold (fuzzyFieldStep cols) (f # post) ?st)) (key g) = map_of (fst ?st) (key g)"
      by (rule fold_preserves_binding [OF cs])
    with m have "map_of (fst ?st) (key g) = Some c" by (simp add: assms(2))
    then have "(key g, c) \<in> set (fst ?st)" by (rule map_of_SomeD)
    with wf have "c \<in> snd ?st" by (force simp: wellFormed_def)
    then show "c \<notin> set ?pool" by simp
  qed
qed

lemma distinct_keys_sortedFields:
  assumes "distinct (map key catalog)"
  shows "distinct (map key (sortedFields catalog cols))"
proof -
  let ?un = "unmappedFields catalog (fst (afterCleanedPass catalog cols))"
  have "distinct (map key ?un)"
    using assms by (simp add: unmappedFields_def distinct_map_filter)
  moreover have "mset (map key (sortedFields catalog cols)) = mset (map key ?un)"
    by (simp add: sortedFields_def Let_def sortBySpecificity_def)
  ultimately show ?thesis by (metis mset_eq_imp_distinct_iff)
qed

lemma sortedFields_unbound:
  assumes "f \<in> set (sortedFields catalog cols)"
  shows "map_of (fst (afterCleanedPass catalog cols)) (key f) = None"
proof -
  have wf: "[] \<notin> snd ` set (fst (afterCleanedPass catalog cols))"
    using wellFormed_afterCleanedPass [of catalog cols] by (simp add: wellFormed_def)
  from assms have "f \<in> set (unmappedFields catalog (fst (afterCleanedPass catalog cols)))"
    by (simp add: sortedFields_def Let_def sortBySpecificity_def)
  from unmapped_key_fresh [OF wf this] show ?thesis
    by (simp add: map_of_eq_None_iff)
qed

text \<open>The third pass of the engine, field by field.\<close>

lemma fuzzyPass_offers:
  assumes "distinct (map key catalog)" "sortedFields catalog cols = pre @ f # post"
  shows "map_of (autoMapColumnsWith catalog cols) (key f) =
           (case findBestMatch f
                   (filter (\<lambda>c. c \<notin> snd (fold (fuzzyFieldStep cols) pre (afterCleanedPass catalog cols))) cols) of
              Some c \<Rightarrow> if c \<noteq> [] then Some c else None
            | None \<Rightarrow> None)"
    and "\<forall>g \<in> set pre. \<forall>c. map_of (autoMapColumnsWith catalog cols) (key g) = Some c \<longrightarrow>
           c \<notin> set (filter (\<lambda>c. c \<notin> snd (fold (fuzzyFieldStep cols) pre (afterCleanedPass catalog cols))) cols)"
proof -
  have d: "distinct (map key (sortedFields catalog cols))"
    by (rule distinct_keys_sortedFields [OF assms(1)])
  have k: "key ` set (sortedFields catalog cols) \<subseteq> key ` set catalog"
    using set_sortedFields [of catalog cols] by blast
  have f: "f \<in> set (sortedFields catalog cols)" by (simp add: assms(2))
  note fp = fuzzyPass_field [OF d assms(2) wellFormed_afterCleanedPass [of catalog cols] k]
  from fp(1) show "map_of (autoMapColumnsWith catalog cols) (key f) =
           (case findBestMatch f
                   (filter (\<lambda>c. c \<notin> snd (fold (fuzzyFieldStep cols) pre (afterCleanedPass catalog cols))) cols) of
              Some c \<Rightarrow> if c \<noteq> [] then Some c else None
            | None \<Rightarrow> None)"
    by (simp add: autoMapColumnsWith_def sortedFields_unbound [OF f] split: option.splits)
  from fp(2) show "\<forall>g \<in> set pre. \<forall>c. map_of (autoMapColumnsWith catalog cols) (key g) = Some c \<longrightarrow>
           c \<notin> set (filter (\<lambda>c. c \<notin> snd (fold (fuzzyFieldStep cols) pre (afterCleanedPass catalog cols))) cols)"
    by (simp add: autoMapColumnsWith_def)
qed

lemma findBestMatch_no_columns: "findBestMatch f [] = None"
  by (simp add: findBestMatch_def fuzzyLoop_def)

text \<open>The run on the two columns \<open>tax\<close> and \<open>Tax\<close>: the first two passes bind
  nothing, so the third pass works through the whole catalog in its sorted order.\<close>

lemma tax_exact: "afterExactPass BUSINESS_FIELDS [''tax'', ''Tax''] = ([], {})"
  by code_simp

lemma tax_cleaned: "afterCleanedPass BUSINESS_FIELDS [''tax'', ''Tax''] = ([], {})"
  unfolding afterCleanedPass_def tax_exact Let_def fst_conv unmappedFields_empty
  by code_simp

lemma catalog_sorted:
  "sortBySpecificity BUSINESS_FIELDS =
    [\<lparr>key = ''municipalTax'',
      label = ''Municipal tax (% tax on Ex showroom excl. subsidy) [130]''\<rparr>,
     \<lparr>key = ''roadTax'', label = ''Road tax (% tax on Ex showroom excl. subsidy) [130]''\<rparr>,
     \<lparr>key = ''p1Total'', label = ''P1 Total (Excl Insurance and RTO but incl subsidys)''\<rparr>,
     \<lparr>key = ''effectiveOnRoadCore'', label = ''Effective on road Price to customer - Core''\<rparr>,
     \<lparr>key = ''effectiveOnRoadPro'', label = ''Effective on road Price to customer - Pro''\<rparr>,
     \<lparr>key = ''rtoRoadSafety'', label = ''RTO - Road safety tax / CESS.''\<rparr>,
     \<lparr>key = ''exShowroomPrice'', label = ''Ex Showroom price (excl Incentives/ Subsidy)''\<rparr>,
     \<lparr>key = ''smartCardFee'', label = ''Smart card fee & RTO registration''\<rparr>,
     \<lparr>key = ''stateSubsidy'', label = ''State Subsidy (Claimed after delivery)''\<rparr>,
     \<lparr>key = ''serviceCharge'', label = ''Service Charge and Penality''\<rparr>,
     \<lparr>key = ''postGstDiscount'', label = ''Post GST Discount''\<rparr>,
     \<lparr>key = ''postalCharges'', label = ''Postal Charges.''\<rparr>,
     \<lparr>key = ''emps'', label = ''EMPS''\<rparr>,
     \<lparr>key = ''insurance'', label = ''Insurance''\<rparr>]"
  by code_simp

lemma tax_sortedFields:
  "sortedFields BUSINESS_FIELDS [''tax'', ''Tax''] = sortBySpecificity BUSINESS_FIELDS"
  by (simp add: sortedFields_def tax_cleaned unmappedFields_empty)

lemma tax_pick_municipalTax:
  "findBestMatch
     \<lparr>key = ''municipalTax'', label = ''Municipal tax (% tax on Ex showroom excl. subsidy) [130]''\<rparr>
     [''tax'', ''Tax''] = Some ''tax''"
  by code_simp

lemma tax_pick_roadTax:
  "findBestMatch
     \<lparr>key = ''roadTax'', label = ''Road tax (% tax on Ex showroom excl. subsidy) [130]''\<rparr>
     [''Tax''] = Some ''Tax''"
  by code_simp

lemma tax_pick_rtoRoadSafety:
  "findBestMatch \<lparr>key = ''rtoRoadSafety'', label = ''RTO - Road safety tax / CESS.''\<rparr> [''Tax'']
     = Some ''Tax''"
  by code_simp

section \<open>The claims\<close>

subsection \<open>Claim C1\<close>

text \<open>
  Claim C1. For every list of column headers the mapping returned by the engine is
  injective: no column is the value of two field keys. The mapping is an association
  list, so this says that its values are pairwise distinct (and so are its keys).
\<close>

theorem autoMapColumns_injective:
  "distinct (map fst (autoMapColumnsWith catalog columnNames)) \<and>
   distinct (map snd (autoMapColumnsWith catalog columnNames))"
  using wellFormed_final [of catalog columnNames]
  by (simp add: wellFormed_def autoMapColumnsWith_def)

theorem autoMapColumns_injective_witness:
  "distinct (map fst (autoMapColumns [''Insurance'', ''insurance''])) \<and>
   distinct (map snd (autoMapColumns [''Insurance'', ''insurance'']))"
  using autoMapColumns_injective [of BUSINESS_FIELDS "[''Insurance'', ''insurance'']"]
  by (simp add: autoMapColumns_def)

subsection \<open>Claim C2\<close>

text \<open>
  Claim C2, as stated, fails: two columns can have the normalized text of the same field,
  and the field is mapped to one of them only. With the columns \<open>Insurance\<close> and
  \<open>insurance\<close> the second column normalizes to the key of the field \<open>insurance\<close> of
  the catalog, and the field is mapped to the first column.
\<close>

theorem exact_precedence_counterexample:
  "\<lparr>key = ''insurance'', label = ''Insurance''\<rparr> \<in> set BUSINESS_FIELDS \<and>
   isCleanedMatch \<lparr>key = ''insurance'', label = ''Insurance''\<rparr> ''insurance'' \<and>
   map_of (autoMapColumns [''Insurance'', ''insurance'']) ''insurance'' = Some ''Insurance'' \<and>
   ''Insurance'' \<noteq> ''insurance''"
proof -
  have m: "\<lparr>key = ''insurance'', label = ''Insurance''\<rparr> \<in> set BUSINESS_FIELDS"
    by (simp add: BUSINESS_FIELDS_def)
  have c: "isCleanedMatch \<lparr>key = ''insurance'', label = ''Insurance''\<rparr> ''insurance''"
    by code_simp
  have t1: "truthy (map_of (fst (afterExactPass BUSINESS_FIELDS [''Insurance'', ''insurance''])) ''insurance'')"
    by (simp add: insurance_exact truthy_def)
  from cleanedPass_keeps [OF t1]
  have b2: "map_of (fst (afterCleanedPass BUSINESS_FIELDS [''Insurance'', ''insurance''])) ''insurance''
      = Some ''Insurance''"
    by (simp add: insurance_exact)
  then have "truthy (map_of (fst (afterCleanedPass BUSINESS_FIELDS [''Insurance'', ''insurance''])) ''insurance'')"
    by (simp add: truthy_def)
  from fuzzyPass_keeps [OF this] b2
  have "map_of (autoMapColumns [''Insurance'', ''insurance'']) ''insurance'' = Some ''Insurance''"
    by (simp add: autoMapColumns_def)
  with m c show ?thesis by simp
qed

text \<open>
  Claim C2, amended. Take a catalog with unique keys and a list of non-empty column
  headers. If the normalized text of some column equals the normalized key or label of a
  field, then the field is mapped to a column of the sheet whose normalized text equals
  its normalized key or label (not always the column in question), the binding is made
  by the first or the second pass and the fuzzy pass does not change it; or else that
  column has been claimed by another field of the catalog that it matches in the same
  way. On the catalog of the source a column matches one field at most, so there the
  field is always mapped in this way.
\<close>

theorem exact_precedence:
  assumes "distinct (map key catalog)" "field \<in> set catalog"
    and "column \<in> set columnNames" "[] \<notin> set columnNames" "isCleanedMatch field column"
  shows "((\<exists>c. map_of (fst (afterCleanedPass catalog columnNames)) (key field) = Some c \<and>
               map_of (autoMapColumnsWith catalog columnNames) (key field) = Some c \<and>
               c \<in> set columnNames \<and> isCleanedMatch field c)
          \<or> (\<exists>g \<in> set catalog. g \<noteq> field \<and> isCleanedMatch g column \<and>
               map_of (autoMapColumnsWith catalog columnNames) (key g) = Some column))
         \<and> (catalog = BUSINESS_FIELDS \<longrightarrow>
              (\<exists>c. map_of (fst (afterCleanedPass BUSINESS_FIELDS columnNames)) (key field) = Some c \<and>
                   map_of (autoMapColumns columnNames) (key field) = Some c \<and>
                   c \<in> set columnNames \<and> isCleanedMatch field c))"
proof -
  note main = cleaned_match_bound [OF assms]
  have "\<exists>c. map_of (fst (afterCleanedPass BUSINESS_FIELDS columnNames)) (key field) = Some c \<and>
            map_of (autoMapColumns columnNames) (key field) = Some c \<and>
            c \<in> set columnNames \<and> isCleanedMatch field c"
    if cat: "catalog = BUSINESS_FIELDS"
  proof -
    have "\<not> (\<exists>g \<in> set catalog. g \<noteq> field \<and> isCleanedMatch g column \<and>
              map_of (autoMapColumnsWith catalog columnNames) (key g) = Some column)"
      using catalog_match_unique [OF _ _ _ assms(5)] assms(2) cat by blast
    with main show ?thesis unfolding cat autoMapColumns_def by blast
  qed
  with main show ?thesis by blast
qed

theorem exact_precedence_witness:
  "distinct (map key BUSINESS_FIELDS) \<and>
   \<lparr>key = ''roadTax'', label = ''Road tax (% tax on Ex showroom excl. subsidy) [130]''\<rparr>
     \<in> set BUSINESS_FIELDS \<and>
   isCleanedMatch \<lparr>key = ''roadTax'', label = ''Road tax (% tax on Ex showroom excl. subsidy) [130]''\<rparr>
     ''ROAD-TAX'' \<and>
   (\<exists>c. map_of (autoMapColumns [''Road Tax'', ''ROAD-TAX'']) ''roadTax'' = Some c \<and>
        c \<in> set [''Road Tax'', ''ROAD-TAX''] \<and>
        isCleanedMatch \<lparr>key = ''roadTax'', label = ''Road tax (% tax on Ex showroom excl. subsidy) [130]''\<rparr> c)"
proof -
  let ?f = "\<lparr>key = ''roadTax'', label = ''Road tax (% tax on Ex showroom excl. subsidy) [130]''\<rparr>"
  have m: "?f \<in> set BUSINESS_FIELDS" by (simp add: BUSINESS_FIELDS_def)
  have c: "isCleanedMatch ?f ''ROAD-TAX''" by code_simp
  have e: "[] \<notin> set [''Road Tax'', ''ROAD-TAX'']" "''ROAD-TAX'' \<in> set [''Road Tax'', ''ROAD-TAX'']"
    by simp_all
  from exact_precedence [OF distinct_catalog_keys m e(2) e(1) c]
  show ?thesis using m c distinct_catalog_keys by auto
qed

subsection \<open>Claim C3\<close>

text \<open>
  Claim C3, as stated, fails on the earlier revision of the matcher, whose threshold is
  0.3: for the field \<open>emps\<close> the column \<open>Ships\<close> matches neither exactly nor after
  cleaning and scores 0.4 (distance 3 on length 5), and the earlier revision returns it.
\<close>

theorem threshold_page_counterexample:
  "\<not> isExactMatch \<lparr>key = ''emps'', label = ''EMPS''\<rparr> ''Ships'' \<and>
   \<not> isCleanedMatch \<lparr>key = ''emps'', label = ''EMPS''\<rparr> ''Ships'' \<and>
   columnScore \<lparr>key = ''emps'', label = ''EMPS''\<rparr> ''Ships'' = 2 / 5 \<and>
   columnScore_page \<lparr>key = ''emps'', label = ''EMPS''\<rparr> ''Ships'' = 2 / 5 \<and>
   findBestMatch_page \<lparr>key = ''emps'', label = ''EMPS''\<rparr> [''Ships''] = Some ''Ships''"
  by code_simp

text \<open>
  Claim C3, amended. In the later revision, with the three passes and the threshold 0.5,
  the fuzzy loop never returns a column whose score is below 0.5: a column returned by
  \<^verbatim>\<open>findBestMatch\<close> is a member of the pool that matches exactly, matches after cleaning,
  or has a score of at least 0.5; when no candidate matches exactly or after cleaning and
  every candidate scores below 0.5, the result is \<^verbatim>\<open>null\<close>; and every binding of the
  mapping the engine returns is a cleaned (or exact) match of its field or has a score of
  at least 0.5. In the earlier revision the threshold is 0.3: a column its single loop
  returns is a member of the pool whose score (1 for an exact match, 0.95 for a cleaned
  exact match, the fuzzy score otherwise) is at least 0.3, and when every candidate
  scores below 0.3 the result is \<^verbatim>\<open>null\<close>.
\<close>

theorem findBestMatch_threshold:
  "(findBestMatch field pool = Some column \<longrightarrow>
      column \<in> set pool \<and>
      (isExactMatch field column \<or> isCleanedMatch field column \<or> 1 / 2 \<le> columnScore field column)) \<and>
   ((\<forall>c \<in> set pool. \<not> isExactMatch field c \<and> \<not> isCleanedMatch field c \<and> columnScore field c < 1 / 2)
      \<longrightarrow> findBestMatch field pool = None) \<and>
   (\<forall>(k, c) \<in> set (autoMapColumnsWith catalog columnNames).
      \<exists>f \<in> set catalog. key f = k \<and> (isCleanedMatch f c \<or> 1 / 2 \<le> columnScore f c)) \<and>
   (findBestMatch_page field pool = Some column \<longrightarrow>
      column \<in> set pool \<and> 3 / 10 \<le> columnScore_page field column) \<and>
   ((\<forall>c \<in> set pool. columnScore_page field c < 3 / 10) \<longrightarrow> findBestMatch_page field pool = None)"
proof -
  have A: "c \<in> set pool \<and> (isExactMatch field c \<or> isCleanedMatch field c \<or> 1 / 2 \<le> columnScore field c)"
    if "findBestMatch field pool = Some c" for c
  proof -
    have mem: "c \<in> set pool" using that by (rule findBestMatch_mem)
    from findBestMatch_cases [OF that] show ?thesis
    proof
      assume "exactLoop field pool = Some c"
      then have "isCleanedMatch field c" by (simp add: exactLoop_find find_mem)
      with mem show ?thesis by simp
    next
      assume "exactLoop field pool = None \<and> c = fst (fuzzyLoop field pool) \<and> c \<noteq> []"
      with fuzzyLoop_accepts [of field pool] have "threshold \<le> columnScore field c" by auto
      with mem show ?thesis by (simp add: threshold_def)
    qed
  qed
  have B: "findBestMatch field pool = None"
    if "\<forall>c \<in> set pool. \<not> isExactMatch field c \<and> \<not> isCleanedMatch field c \<and> columnScore field c < 1 / 2"
  proof (cases "findBestMatch field pool")
    case None
    then show ?thesis .
  next
    case (Some c)
    from A [OF Some] that show ?thesis by force
  qed
  have C: "\<forall>(k, c) \<in> set (autoMapColumnsWith catalog columnNames).
      \<exists>f \<in> set catalog. key f = k \<and> (isCleanedMatch f c \<or> 1 / 2 \<le> columnScore f c)"
    using autoMapColumns_accepted [of _ _ catalog columnNames] by fast
  have D: "column \<in> set pool \<and> 3 / 10 \<le> columnScore_page field column"
    if "findBestMatch_page field pool = Some column"
    using findBestMatch_page_best [OF that] by simp
  have E: "findBestMatch_page field pool = None"
    if "\<forall>c \<in> set pool. columnScore_page field c < 3 / 10"
    using that by (rule findBestMatch_page_none)
  from A B C D E show ?thesis by blast
qed

theorem findBestMatch_threshold_witness:
  "findBestMatch \<lparr>key = ''emps'', label = ''EMPS''\<rparr> [''EMPS Price''] = Some ''EMPS Price'' \<and>
   \<not> isCleanedMatch \<lparr>key = ''emps'', label = ''EMPS''\<rparr> ''EMPS Price'' \<and>
   1 / 2 \<le> columnScore \<lparr>key = ''emps'', label = ''EMPS''\<rparr> ''EMPS Price'' \<and>
   columnScore \<lparr>key = ''emps'', label = ''EMPS''\<rparr> ''Qty'' < 1 / 2 \<and>
   findBestMatch \<lparr>key = ''emps'', label = ''EMPS''\<rparr> [''Qty''] = None \<and>
   findBestMatch \<lparr>key = ''emps'', label = ''EMPS''\<rparr> [''Ships''] = None \<and>
   findBestMatch_page \<lparr>key = ''emps'', label = ''EMPS''\<rparr> [''Ships''] = Some ''Ships'' \<and>
   3 / 10 \<le> columnScore_page \<lparr>key = ''emps'', label = ''EMPS''\<rparr> ''Ships'' \<and>
   columnScore_page \<lparr>key = ''emps'', label = ''EMPS''\<rparr> ''Qty'' < 3 / 10 \<and>
   findBestMatch_page \<lparr>key = ''emps'', label = ''EMPS''\<rparr> [''Qty''] = None"
proof -
  let ?f = "\<lparr>key = ''emps'', label = ''EMPS''\<rparr>"
  have r: "findBestMatch ?f [''EMPS Price''] = Some ''EMPS Price''" by code_simp
  have n: "\<not> isCleanedMatch ?f ''EMPS Price''" "\<not> isExactMatch ?f ''EMPS Price''" by code_simp+
  have q: "\<not> isExactMatch ?f ''Qty''" "\<not> isCleanedMatch ?f ''Qty''" "columnScore ?f ''Qty'' < 1 / 2"
    by code_simp+
  have s: "\<not> isExactMatch ?f ''Ships''" "\<not> isCleanedMatch ?f ''Ships''"
    "columnScore ?f ''Ships'' < 1 / 2"
    by code_simp+
  have p: "findBestMatch_page ?f [''Ships''] = Some ''Ships''" by code_simp
  have pq: "columnScore_page ?f ''Qty'' < 3 / 10" by code_simp
  from findBestMatch_threshold [of ?f "[''EMPS Price'']" "''EMPS Price''"] r n
  have 1: "1 / 2 \<le> columnScore ?f ''EMPS Price''" by simp
  from findBestMatch_threshold [of ?f "[''Qty'']"] q pq
  have 2: "findBestMatch ?f [''Qty''] = None" "findBestMatch_page ?f [''Qty''] = None"
    by simp_all
  from findBestMatch_threshold [of ?f "[''Ships'']" "''Ships''"] s p
  have 3: "findBestMatch ?f [''Ships''] = None" "3 / 10 \<le> columnScore_page ?f ''Ships''"
    by simp_all
  from 1 2 3 r n q p pq show ?thesis by simp
qed

subsection \<open>Claim C4\<close>

text \<open>
  Claim C4, as stated, fails on the earlier revision of the matcher, which has no
  denylist: the header \<open>Insurance Code\<close> contains the token \<open>code\<close>, and for the
  field \<open>insurance\<close> the earlier revision returns it.
\<close>

theorem denylist_page_counterexample:
  "isDenylisted (toLowerCase ''Insurance Code'') \<and>
   \<not> isExactMatch \<lparr>key = ''insurance'', label = ''Insurance''\<rparr> ''Insurance Code'' \<and>
   \<not> isCleanedMatch \<lparr>key = ''insurance'', label = ''Insurance''\<rparr> ''Insurance Code'' \<and>
   columnScore_page \<lparr>key = ''insurance'', label = ''Insurance''\<rparr> ''Insurance Code'' = 8 / 10 \<and>
   findBestMatch_page \<lparr>key = ''insurance'', label = ''Insurance''\<rparr> [''Insurance Code'']
     = Some ''Insurance Code''"
  by code_simp

text \<open>
  Claim C4, amended. In the later revision a column whose lower-cased header contains one
  of the tokens product, name, model, code, category, region, status is never the choice
  of the fuzzy loop, whatever it would score; \<^verbatim>\<open>findBestMatch\<close> can return such a column
  only from its first loop, as an exact or cleaned exact match, and the engine binds such
  a column only to a field it matches in that way. The earlier revision has no denylist:
  the column its loop returns has the highest score of the pool, whether it contains
  such a token or not, and a pool of non-empty headers with a candidate that scores at
  least 0.3 always gives a column.
\<close>

theorem fuzzyLoop_skips_denylisted:
  "\<not> isDenylisted (toLowerCase (fst (fuzzyLoop field pool))) \<and>
   (findBestMatch field pool = Some column \<and> isDenylisted (toLowerCase column)
      \<longrightarrow> exactLoop field pool = Some column \<and> isCleanedMatch field column) \<and>
   (\<forall>(k, c) \<in> set (autoMapColumnsWith catalog columnNames).
      isDenylisted (toLowerCase c) \<longrightarrow> (\<exists>f \<in> set catalog. key f = k \<and> isCleanedMatch f c)) \<and>
   (findBestMatch_page field pool = Some column \<longrightarrow>
      (\<forall>c \<in> set pool. columnScore_page field c \<le> columnScore_page field column)) \<and>
   ([] \<notin> set pool \<and> column \<in> set pool \<and> 3 / 10 \<le> columnScore_page field column
      \<longrightarrow> findBestMatch_page field pool \<noteq> None)"
proof -
  have A: "\<not> isDenylisted (toLowerCase (fst (fuzzyLoop field pool)))"
    using fuzzyLoop_accepts [of field pool] not_isDenylisted_empty by auto
  have "exactLoop field pool = Some column \<and> isCleanedMatch field column"
    if "findBestMatch field pool = Some column" "isDenylisted (toLowerCase column)"
    using findBestMatch_cases [OF that(1)] that(2) A
    by (auto simp: exactLoop_find dest: find_mem)
  moreover have "\<forall>(k, c) \<in> set (autoMapColumnsWith catalog columnNames).
      isDenylisted (toLowerCase c) \<longrightarrow> (\<exists>f \<in> set catalog. key f = k \<and> isCleanedMatch f c)"
    using autoMapColumns_accepted [of _ _ catalog columnNames] by fast
  moreover have "\<forall>c \<in> set pool. columnScore_page field c \<le> columnScore_page field column"
    if "findBestMatch_page field pool = Some column"
    using findBestMatch_page_best [OF that] by simp
  moreover have "findBestMatch_page field pool \<noteq> None"
    if "[] \<notin> set pool" "column \<in> set pool" "3 / 10 \<le> columnScore_page field column"
    using that by (rule findBestMatch_page_some)
  ultimately show ?thesis using A by blast
qed

theorem fuzzyLoop_skips_denylisted_witness:
  "isDenylisted (toLowerCase ''Insurance Code'') \<and>
   8 / 10 = columnScore \<lparr>key = ''insurance'', label = ''Insurance''\<rparr> ''Insurance Code'' \<and>
   fst (fuzzyLoop \<lparr>key = ''insurance'', label = ''Insurance''\<rparr> [''Insurance Code'', ''Premium''])
     \<noteq> ''Insurance Code'' \<and>
   3 / 10 \<le> columnScore_page \<lparr>key = ''insurance'', label = ''Insurance''\<rparr> ''Insurance Code'' \<and>
   findBestMatch_page \<lparr>key = ''insurance'', label = ''Insurance''\<rparr> [''Insurance Code''] \<noteq> None"
proof -
  let ?f = "\<lparr>key = ''insurance'', label = ''Insurance''\<rparr>"
  have d: "isDenylisted (toLowerCase ''Insurance Code'')" by code_simp
  have s: "8 / 10 = columnScore ?f ''Insurance Code''" by code_simp
  have p: "3 / 10 \<le> columnScore_page ?f ''Insurance Code''" by code_simp
  from fuzzyLoop_skips_denylisted [of ?f "[''Insurance Code'', ''Premium'']"] d
  have 1: "fst (fuzzyLoop ?f [''Insurance Code'', ''Premium'']) \<noteq> ''Insurance Code''" by auto
  from fuzzyLoop_skips_denylisted [of ?f "[''Insurance Code'']" "''Insurance Code''"] p
  have 2: "findBestMatch_page ?f [''Insurance Code''] \<noteq> None" by simp
  from d s p 1 2 show ?thesis by simp
qed

subsection \<open>Claim C5\<close>

text \<open>
  Claim C5. The similarity of two strings lies between 0 and 1 and is staged on the
  normalized strings (lower-cased, everything but \<open>a-z0-9\<close> removed): 1 when they are
  equal, 0.8 when one contains the other, and otherwise 1 minus the Levenshtein distance
  divided by the larger length. The number the code reads from its matrix is the value
  of the Levenshtein recurrence, which is the least cost of an edit script between the
  two normalized strings.
\<close>

theorem calculateSimilarity_staged:
  "0 \<le> calculateSimilarity str1 str2 \<and> calculateSimilarity str1 str2 \<le> 1 \<and>
   calculateSimilarity str1 str2 =
     (let s1 = stripNonAlnum (toLowerCase str1); s2 = stripNonAlnum (toLowerCase str2)
      in if s1 = s2 then 1
         else if sublist s2 s1 \<or> sublist s1 s2 then 8 / 10
         else 1 - rat_of_nat (levenshtein s1 s2 (length s1) (length s2))
                  / rat_of_nat (max (length s1) (length s2))) \<and>
   (let s1 = stripNonAlnum (toLowerCase str1); s2 = stripNonAlnum (toLowerCase str2);
        d = levenshtein s1 s2 (length s1) (length s2)
    in edits s1 s2 d \<and> (\<forall>n. edits s1 s2 n \<longrightarrow> d \<le> n))"
proof -
  define s1 where "s1 = stripNonAlnum (toLowerCase str1)"
  define s2 where "s2 = stripNonAlnum (toLowerCase str2)"
  define d where "d = levenshtein s1 s2 (length s1) (length s2)"
  define n where "n = max (length s1) (length s2)"
  have dn: "d \<le> n" unfolding d_def n_def by (rule levenshtein_le_max)
  have pos: "s1 \<noteq> s2 \<Longrightarrow> 0 < n" unfolding n_def by (cases s1; cases s2) auto
  have eq: "calculateSimilarity str1 str2 =
      (if s1 = s2 then 1
       else if sublist s2 s1 \<or> sublist s1 s2 then 8 / 10
       else 1 - rat_of_nat d / rat_of_nat n)"
    using pos
    by (auto simp: calculateSimilarity_def Let_def s1_def [symmetric] s2_def [symmetric]
        matrixDistance_levenshtein includesStr_sublist d_def n_def)
  have frac: "0 \<le> rat_of_nat d / rat_of_nat n" "rat_of_nat d / rat_of_nat n \<le> 1" if "0 < n"
    using that dn by (simp_all add: divide_le_eq_1)
  have "0 \<le> calculateSimilarity str1 str2 \<and> calculateSimilarity str1 str2 \<le> 1"
    unfolding eq using frac pos by auto
  then show ?thesis
    using eq levenshtein_edits [of s1 s2] by (simp add: Let_def s1_def s2_def d_def n_def)
qed

theorem calculateSimilarity_staged_witness:
  "0 \<le> calculateSimilarity ''AB-c'' ''x b d'' \<and> calculateSimilarity ''AB-c'' ''x b d'' \<le> 1 \<and>
   calculateSimilarity ''AB-c'' ''x b d'' = 1 / 3"
proof -
  have s1: "stripNonAlnum (toLowerCase ''AB-c'') = ''abc''" by code_simp
  have s2: "stripNonAlnum (toLowerCase ''x b d'') = ''xbd''" by code_simp
  have i1: "\<not> includesStr ''abc'' ''xbd''" "\<not> includesStr ''xbd'' ''abc''" by code_simp+
  have l: "levenshtein ''abc'' ''xbd'' 3 3 = 2" by code_simp
  show ?thesis
    using calculateSimilarity_staged [of "''AB-c''" "''x b d''"] i1
    unfolding Let_def s1 s2 includesStr_sublist l
    by simp
qed

subsection \<open>Claim C6\<close>

text \<open>
  Claim C6, as stated, fails: the first loop tests each candidate for an exact match and
  for a cleaned exact match before it moves on, so an earlier candidate that matches only
  after cleaning is returned although a later candidate matches exactly. Here the pool is
  \<open>Road-Tax\<close>, \<open>roadtax\<close> and the field is \<open>roadTax\<close> of the catalog.
\<close>

theorem findBestMatch_exact_first_counterexample:
  "isExactMatch \<lparr>key = ''roadTax'', label = ''Road tax (% tax on Ex showroom excl. subsidy) [130]''\<rparr>
     ''roadtax'' \<and>
   \<not> isExactMatch \<lparr>key = ''roadTax'', label = ''Road tax (% tax on Ex showroom excl. subsidy) [130]''\<rparr>
     ''Road-Tax'' \<and>
   find (isExactMatch \<lparr>key = ''roadTax'', label = ''Road tax (% tax on Ex showroom excl. subsidy) [130]''\<rparr>)
     [''Road-Tax'', ''roadtax''] = Some ''roadtax'' \<and>
   findBestMatch \<lparr>key = ''roadTax'', label = ''Road tax (% tax on Ex showroom excl. subsidy) [130]''\<rparr>
     [''Road-Tax'', ''roadtax''] = Some ''Road-Tax''"
  by code_simp

text \<open>
  Claim C6, amended. Whenever some candidate equals the key or the label
  case-insensitively, \<^verbatim>\<open>findBestMatch\<close> returns the first candidate in pool order whose
  normalized text equals the normalized key or label (a case-insensitive match is such a
  candidate). That is the first case-insensitive match itself, unless an earlier
  candidate matches only after normalization: then the earlier one is returned.
\<close>

theorem findBestMatch_first_cleaned:
  assumes "find (isExactMatch field) pool = Some column"
  shows "findBestMatch field pool = find (isCleanedMatch field) pool \<and>
         (findBestMatch field pool = Some column \<or>
          (\<exists>earlier. findBestMatch field pool = Some earlier \<and>
             isCleanedMatch field earlier \<and> \<not> isExactMatch field earlier \<and>
             earlier \<in> set (takeWhile (\<lambda>c. \<not> isExactMatch field c) pool)))"
proof -
  have ex: "isExactMatch field column" "column \<in> set pool"
    using assms by (auto dest: find_mem)
  then have "\<exists>c \<in> set pool. isCleanedMatch field c"
    by (auto dest: isExactMatch_cleaned)
  then obtain first where first: "find (isCleanedMatch field) pool = Some first"
    by (cases "find (isCleanedMatch field) pool") (auto simp: find_None_iff)
  then have fb: "findBestMatch field pool = Some first"
    by (simp add: findBestMatch_def exactLoop_find)
  have "first = column \<or>
        (isCleanedMatch field first \<and> \<not> isExactMatch field first \<and>
         first \<in> set (takeWhile (\<lambda>c. \<not> isExactMatch field c) pool))"
    using assms first
  proof (induction pool)
    case Nil
    then show ?case by simp
  next
    case (Cons c pool)
    then show ?case
      by (auto split: if_splits dest: isExactMatch_cleaned)
  qed
  with fb first show ?thesis by auto
qed

theorem findBestMatch_first_cleaned_witness:
  "find (isExactMatch \<lparr>key = ''roadTax'', label = ''Road tax''\<rparr>) [''Qty'', ''Road-Tax'', ''roadtax'']
     = Some ''roadtax'' \<and>
   find (isCleanedMatch \<lparr>key = ''roadTax'', label = ''Road tax''\<rparr>) [''Qty'', ''Road-Tax'', ''roadtax'']
     = Some ''Road-Tax'' \<and>
   findBestMatch \<lparr>key = ''roadTax'', label = ''Road tax''\<rparr> [''Qty'', ''Road-Tax'', ''roadtax'']
     = Some ''Road-Tax''"
proof -
  let ?f = "\<lparr>key = ''roadTax'', label = ''Road tax''\<rparr>"
  have e: "find (isExactMatch ?f) [''Qty'', ''Road-Tax'', ''roadtax''] = Some ''roadtax''"
    by code_simp
  have c: "find (isCleanedMatch ?f) [''Qty'', ''Road-Tax'', ''roadtax''] = Some ''Road-Tax''"
    by code_simp
  from findBestMatch_first_cleaned [OF e] c e show ?thesis by simp
qed

subsection \<open>Claim C7\<close>

text \<open>
  Claim C7. The validator goes through the whole catalog and collects, in catalog order,
  one error for every field without a truthy assignment and one error for every field
  whose assigned column is not in the column list; nothing stops the loop early. A column
  assigned to more than one field gives a warning, never an error (the errors depend on
  the mapping only through the single fields' lookups), and \<open>isValid\<close> holds exactly
  when the error list is empty.
\<close>

theorem validateColumnMappings_collects:
  "(let r = validateColumnMappingsWith catalog mappings columnNames;
        missing = (\<lambda>f::business_field. \<not> truthy (map_of mappings (key f)));
        invalid = (\<lambda>f::business_field. truthy (map_of mappings (key f))
                        \<and> the (map_of mappings (key f)) \<notin> set columnNames)
    in errors r =
         concat (map (\<lambda>f. if missing f then [missingMessage f]
                          else if invalid f then [invalidMessage f (the (map_of mappings (key f)))]
                          else []) catalog)
       \<and> length (errors r) = length (filter missing catalog) + length (filter invalid catalog)
       \<and> (warnings r = [] \<longleftrightarrow> distinct (filter (\<lambda>v. v \<noteq> []) (map snd mappings)))
       \<and> length (warnings r) \<le> 1
       \<and> isValid r = (errors r = []))"
proof -
  define missing where "missing = (\<lambda>f::business_field. \<not> truthy (map_of mappings (key f)))"
  define invalid where "invalid = (\<lambda>f::business_field. truthy (map_of mappings (key f))
      \<and> the (map_of mappings (key f)) \<notin> set columnNames)"
  define r where "r = validateColumnMappingsWith catalog mappings columnNames"
  have e: "errors r =
      concat (map (\<lambda>f. if missing f then [missingMessage f]
                       else if invalid f then [invalidMessage f (the (map_of mappings (key f)))]
                       else []) catalog)"
    unfolding r_def validateColumnMappingsWith_def Let_def missing_def invalid_def
    by (simp add: fold_validateField validateField_alone)
  have l: "length (errors r) = length (filter missing catalog) + length (filter invalid catalog)"
  proof -
    have "filter (\<lambda>f. \<not> missing f \<and> invalid f) catalog = filter invalid catalog"
      by (rule filter_cong) (auto simp: missing_def invalid_def)
    then show ?thesis unfolding e by (simp add: length_concat_cases)
  qed
  have w: "warnings r = [] \<longleftrightarrow> distinct (filter (\<lambda>v. v \<noteq> []) (map snd mappings))"
    unfolding r_def validateColumnMappingsWith_def Let_def
    by (simp add: duplicatesOf_empty)
  have w1: "length (warnings r) \<le> 1"
    unfolding r_def validateColumnMappingsWith_def Let_def by simp
  have v: "isValid r = (errors r = [])"
    unfolding r_def validateColumnMappingsWith_def Let_def by simp
  from e l w w1 v show ?thesis
    unfolding Let_def r_def missing_def invalid_def by blast
qed

theorem validateColumnMappings_collects_witness:
  "errors (validateColumnMappingsWith
             [\<lparr>key = ''emps'', label = ''EMPS''\<rparr>, \<lparr>key = ''insurance'', label = ''Insurance''\<rparr>]
             [(''emps'', ''A''), (''insurance'', ''A'')] [''A'']) = [] \<and>
   warnings (validateColumnMappingsWith
             [\<lparr>key = ''emps'', label = ''EMPS''\<rparr>, \<lparr>key = ''insurance'', label = ''Insurance''\<rparr>]
             [(''emps'', ''A''), (''insurance'', ''A'')] [''A''])
     = [''Duplicate column mappings detected: A''] \<and>
   isValid (validateColumnMappingsWith
             [\<lparr>key = ''emps'', label = ''EMPS''\<rparr>, \<lparr>key = ''insurance'', label = ''Insurance''\<rparr>]
             [(''emps'', ''A''), (''insurance'', ''A'')] [''A'']) \<and>
   errors (validateColumnMappingsWith
             [\<lparr>key = ''emps'', label = ''EMPS''\<rparr>, \<lparr>key = ''insurance'', label = ''Insurance''\<rparr>]
             [(''insurance'', ''B'')] [''A''])
     = [''Missing mapping for: EMPS'',
        ''Invalid column selected for Insurance: '' @ [CHR 0x22] @ ''B'' @ [CHR 0x22]
          @ '' not found in Excel file'']"
proof -
  let ?cat = "[\<lparr>key = ''emps'', label = ''EMPS''\<rparr>, \<lparr>key = ''insurance'', label = ''Insurance''\<rparr>]"
  have w: "warnings (validateColumnMappingsWith ?cat [(''emps'', ''A''), (''insurance'', ''A'')] [''A''])
      = [''Duplicate column mappings detected: A'']"
    by code_simp
  from validateColumnMappings_collects [of ?cat "[(''emps'', ''A''), (''insurance'', ''A'')]" "[''A'']"]
       validateColumnMappings_collects [of ?cat "[(''insurance'', ''B'')]" "[''A'']"]
  show ?thesis
    unfolding Let_def w
    by (simp add: truthy_def missingMessage_def invalidMessage_def)
qed

subsection \<open>Claim C8\<close>

text \<open>
  Claim C8, as stated, fails in the route it names: on the catalog with the single field
  \<open>roadTax\<close> and the column \<open>Road Tax %\<close> the first pass maps nothing, the second
  (cleaned exact) pass maps the field, since \<open>Road Tax %\<close> and the key both normalize
  to \<open>roadtax\<close>, and the third pass has no field left to work on. The score the fuzzy
  loop would compute for the pair is 1, which is not below 0.8, so no boost would be
  added to it either.
\<close>

theorem roadTax_scenario_counterexample:
  "fst (afterExactPass
          [\<lparr>key = ''roadTax'', label = ''Road tax (% tax on Ex showroom excl. subsidy) [130]''\<rparr>]
          [''Road Tax %'']) = [] \<and>
   fst (afterCleanedPass
          [\<lparr>key = ''roadTax'', label = ''Road tax (% tax on Ex showroom excl. subsidy) [130]''\<rparr>]
          [''Road Tax %'']) = [(''roadTax'', ''Road Tax %'')] \<and>
   sortedFields
     [\<lparr>key = ''roadTax'', label = ''Road tax (% tax on Ex showroom excl. subsidy) [130]''\<rparr>]
     [''Road Tax %''] = [] \<and>
   columnScore \<lparr>key = ''roadTax'', label = ''Road tax (% tax on Ex showroom excl. subsidy) [130]''\<rparr>
     ''Road Tax %'' = 1"
proof -
  let ?f = "\<lparr>key = ''roadTax'', label = ''Road tax (% tax on Ex showroom excl. subsidy) [130]''\<rparr>"
  have s: "sortedFields [?f] [''Road Tax %''] = []"
    unfolding sortedFields_def roadTax_alone_cleaned Let_def fst_conv
    by (simp add: unmappedFields_def truthy_def sortBySpecificity_def)
  have "columnScore ?f ''Road Tax %'' = 1"
    by (rule columnScore_key_similar) code_simp+
  with s show ?thesis by (simp add: roadTax_alone_exact roadTax_alone_cleaned)
qed

text \<open>
  Claim C8, amended. On that catalog and column list the engine maps \<open>roadTax\<close> to
  \<open>Road Tax %\<close>, and the binding is made by the cleaned exact pass; the same holds on
  the catalog of the source.
\<close>

theorem roadTax_scenario:
  "autoMapColumnsWith
     [\<lparr>key = ''roadTax'', label = ''Road tax (% tax on Ex showroom excl. subsidy) [130]''\<rparr>]
     [''Road Tax %''] = [(''roadTax'', ''Road Tax %'')] \<and>
   isCleanedMatch \<lparr>key = ''roadTax'', label = ''Road tax (% tax on Ex showroom excl. subsidy) [130]''\<rparr>
     ''Road Tax %'' \<and>
   fst (afterCleanedPass
          [\<lparr>key = ''roadTax'', label = ''Road tax (% tax on Ex showroom excl. subsidy) [130]''\<rparr>]
          [''Road Tax %'']) = [(''roadTax'', ''Road Tax %'')] \<and>
   fst (afterCleanedPass BUSINESS_FIELDS [''Road Tax %'']) = [(''roadTax'', ''Road Tax %'')] \<and>
   autoMapColumns [''Road Tax %''] = [(''roadTax'', ''Road Tax %'')]"
proof -
  let ?f = "\<lparr>key = ''roadTax'', label = ''Road tax (% tax on Ex showroom excl. subsidy) [130]''\<rparr>"
  have c: "isCleanedMatch ?f ''Road Tax %''" by code_simp
  have a: "autoMapColumnsWith [?f] [''Road Tax %''] = [(''roadTax'', ''Road Tax %'')]"
    unfolding autoMapColumnsWith_def roadTax_alone_cleaned
    by (simp add: fuzzyPass_exhausted)
  have b: "autoMapColumns [''Road Tax %''] = [(''roadTax'', ''Road Tax %'')]"
    unfolding autoMapColumns_def autoMapColumnsWith_def roadTax_catalog_cleaned
    by (simp add: fuzzyPass_exhausted)
  from a b c show ?thesis by (simp add: roadTax_alone_cleaned roadTax_catalog_cleaned)
qed

subsection \<open>Claim C9\<close>

text \<open>
  Claim C9. The third pass works through the fields that are still unmapped after the
  second pass, in the order of \<open>sortedFields\<close>: a stable sort of those fields by the
  number of pieces \<^verbatim>\<open>label.split(' ')\<close> gives, larger counts first. On the catalog of the
  source that number is the number of white-space separated tokens of the label, so the
  order is by descending token count, and it is fixed by the labels and the catalog
  order. Each field of the list is offered, in its turn, the columns that the first two
  passes and the fields before it in the list have left unclaimed; the fields before it
  have at least as many tokens, none of their columns is in its pool, and the field keeps
  in the returned mapping exactly what \<^verbatim>\<open>findBestMatch\<close> picks from that pool (and stays
  unmapped when it picks nothing).
\<close>

theorem fuzzy_pass_order:
  "autoMapColumns columnNames =
     fst (fold (fuzzyFieldStep columnNames) (sortedFields BUSINESS_FIELDS columnNames)
            (afterCleanedPass BUSINESS_FIELDS columnNames)) \<and>
   mset (sortedFields BUSINESS_FIELDS columnNames) =
     mset (unmappedFields BUSINESS_FIELDS (fst (afterCleanedPass BUSINESS_FIELDS columnNames))) \<and>
   sorted_wrt (\<lambda>a b. tokenCount (label b) \<le> tokenCount (label a))
     (sortedFields BUSINESS_FIELDS columnNames) \<and>
   filter (\<lambda>f. tokenCount (label f) = k) (sortedFields BUSINESS_FIELDS columnNames) =
     filter (\<lambda>f. tokenCount (label f) = k)
       (unmappedFields BUSINESS_FIELDS (fst (afterCleanedPass BUSINESS_FIELDS columnNames))) \<and>
   sorted_wrt (\<lambda>a b. specificity b \<le> specificity a) (sortedFields catalog columnNames) \<and>
   (\<forall>pre f post. sortedFields BUSINESS_FIELDS columnNames = pre @ f # post \<longrightarrow>
      (let st = fold (fuzzyFieldStep columnNames) pre (afterCleanedPass BUSINESS_FIELDS columnNames);
           pool = filter (\<lambda>col. col \<notin> snd st) columnNames
       in (\<forall>g \<in> set pre. tokenCount (label f) \<le> tokenCount (label g)) \<and>
          (\<forall>g \<in> set pre. \<forall>c. map_of (autoMapColumns columnNames) (key g) = Some c
             \<longrightarrow> c \<notin> set pool) \<and>
          map_of (autoMapColumns columnNames) (key f) =
            (case findBestMatch f pool of
               Some c \<Rightarrow> if c \<noteq> [] then Some c else None
             | None \<Rightarrow> None)))"
proof -
  let ?un = "unmappedFields BUSINESS_FIELDS (fst (afterCleanedPass BUSINESS_FIELDS columnNames))"
  let ?sf = "sortedFields BUSINESS_FIELDS columnNames"
  have sf: "?sf = sortBySpecificity ?un"
    by (simp add: sortedFields_def Let_def)
  have sub: "set ?sf \<subseteq> set BUSINESS_FIELDS" by (rule set_sortedFields)
  have un: "set ?un \<subseteq> set BUSINESS_FIELDS" by (rule set_unmappedFields)
  have a: "autoMapColumns columnNames =
      fst (fold (fuzzyFieldStep columnNames) ?sf (afterCleanedPass BUSINESS_FIELDS columnNames))"
    by (simp add: autoMapColumns_def autoMapColumnsWith_def)
  have b: "mset ?sf = mset ?un"
    by (simp add: sf sortBySpecificity_def)
  have "sorted_wrt (\<lambda>a b. specificity b \<le> specificity a) ?sf"
    unfolding sf by (rule sortBySpecificity_sorted)
  then have c: "sorted_wrt (\<lambda>a b. tokenCount (label b) \<le> tokenCount (label a)) ?sf"
  proof (rule sorted_wrt_mono_rel [rotated])
    fix x y assume "x \<in> set ?sf" "y \<in> set ?sf" "specificity y \<le> specificity x"
    with sub show "tokenCount (label y) \<le> tokenCount (label x)"
      by (simp add: specificity_tokenCount [symmetric] subset_iff)
  qed
  have d: "filter (\<lambda>f. tokenCount (label f) = k) ?sf = filter (\<lambda>f. tokenCount (label f) = k) ?un"
  proof -
    have "filter (\<lambda>f. tokenCount (label f) = k) ?sf = filter (\<lambda>f. specificity f = k) ?sf"
      using sub by (intro filter_cong) (auto simp: specificity_tokenCount)
    also have "\<dots> = filter (\<lambda>f. specificity f = k) ?un"
      unfolding sf by (rule sortBySpecificity_stable)
    also have "\<dots> = filter (\<lambda>f. tokenCount (label f) = k) ?un"
      using un by (intro filter_cong) (auto simp: specificity_tokenCount)
    finally show ?thesis .
  qed
  have e: "sorted_wrt (\<lambda>a b. specificity b \<le> specificity a) (sortedFields catalog columnNames)"
    by (simp add: sortedFields_def Let_def sortBySpecificity_sorted)
  have f: "\<forall>pre f post. ?sf = pre @ f # post \<longrightarrow>
      (let st = fold (fuzzyFieldStep columnNames) pre (afterCleanedPass BUSINESS_FIELDS columnNames);
           pool = filter (\<lambda>col. col \<notin> snd st) columnNames
       in (\<forall>g \<in> set pre. tokenCount (label f) \<le> tokenCount (label g)) \<and>
          (\<forall>g \<in> set pre. \<forall>c. map_of (autoMapColumns columnNames) (key g) = Some c
             \<longrightarrow> c \<notin> set pool) \<and>
          map_of (autoMapColumns columnNames) (key f) =
            (case findBestMatch f pool of
               Some c \<Rightarrow> if c \<noteq> [] then Some c else None
             | None \<Rightarrow> None))"
  proof (intro allI impI)
    fix pre f post assume split: "?sf = pre @ f # post"
    from c have "\<forall>g \<in> set pre. tokenCount (label f) \<le> tokenCount (label g)"
      unfolding split by (simp add: sorted_wrt_append)
    with fuzzyPass_offers [OF distinct_catalog_keys split]
    show "let st = fold (fuzzyFieldStep columnNames) pre (afterCleanedPass BUSINESS_FIELDS columnNames);
           pool = filter (\<lambda>col. col \<notin> snd st) columnNames
       in (\<forall>g \<in> set pre. tokenCount (label f) \<le> tokenCount (label g)) \<and>
          (\<forall>g \<in> set pre. \<forall>c. map_of (autoMapColumns columnNames) (key g) = Some c
             \<longrightarrow> c \<notin> set pool) \<and>
          map_of (autoMapColumns columnNames) (key f) =
            (case findBestMatch f pool of
               Some c \<Rightarrow> if c \<noteq> [] then Some c else None
             | None \<Rightarrow> None)"
      unfolding Let_def autoMapColumns_def by blast
  qed
  from a b c d e f show ?thesis by blast
qed

theorem fuzzy_pass_order_witness:
  "map key (sortedFields BUSINESS_FIELDS [''tax'', ''Tax'']) =
     [''municipalTax'', ''roadTax'', ''p1Total'', ''effectiveOnRoadCore'', ''effectiveOnRoadPro'',
      ''rtoRoadSafety'', ''exShowroomPrice'', ''smartCardFee'', ''stateSubsidy'', ''serviceCharge'',
      ''postGstDiscount'', ''postalCharges'', ''emps'', ''insurance''] \<and>
   sorted_wrt (\<lambda>a b. tokenCount (label b) \<le> tokenCount (label a))
     (sortedFields BUSINESS_FIELDS [''tax'', ''Tax'']) \<and>
   map_of (autoMapColumns [''tax'', ''Tax'']) ''municipalTax'' = Some ''tax'' \<and>
   map_of (autoMapColumns [''tax'', ''Tax'']) ''roadTax'' = Some ''Tax'' \<and>
   map_of (autoMapColumns [''tax'', ''Tax'']) ''rtoRoadSafety'' = None \<and>
   findBestMatch \<lparr>key = ''rtoRoadSafety'', label = ''RTO - Road safety tax / CESS.''\<rparr> [''Tax'']
     = Some ''Tax''"
proof -
  let ?cols = "[''tax'', ''Tax'']"
  let ?m = "\<lparr>key = ''municipalTax'',
              label = ''Municipal tax (% tax on Ex showroom excl. subsidy) [130]''\<rparr>"
  let ?r = "\<lparr>key = ''roadTax'', label = ''Road tax (% tax on Ex showroom excl. subsidy) [130]''\<rparr>"
  let ?p = "\<lparr>key = ''p1Total'', label = ''P1 Total (Excl Insurance and RTO but incl subsidys)''\<rparr>"
  let ?ec = "\<lparr>key = ''effectiveOnRoadCore'', label = ''Effective on road Price to customer - Core''\<rparr>"
  let ?ep = "\<lparr>key = ''effectiveOnRoadPro'', label = ''Effective on road Price to customer - Pro''\<rparr>"
  let ?rto = "\<lparr>key = ''rtoRoadSafety'', label = ''RTO - Road safety tax / CESS.''\<rparr>"
  let ?rest = "[\<lparr>key = ''exShowroomPrice'', label = ''Ex Showroom price (excl Incentives/ Subsidy)''\<rparr>,
     \<lparr>key = ''smartCardFee'', label = ''Smart card fee & RTO registration''\<rparr>,
     \<lparr>key = ''stateSubsidy'', label = ''State Subsidy (Claimed after delivery)''\<rparr>,
     \<lparr>key = ''serviceCharge'', label = ''Service Charge and Penality''\<rparr>,
     \<lparr>key = ''postGstDiscount'', label = ''Post GST Discount''\<rparr>,
     \<lparr>key = ''postalCharges'', label = ''Postal Charges.''\<rparr>,
     \<lparr>key = ''emps'', label = ''EMPS''\<rparr>,
     \<lparr>key = ''insurance'', label = ''Insurance''\<rparr>]"
  have sf: "sortedFields BUSINESS_FIELDS ?cols = ?m # ?r # ?p # ?ec # ?ep # ?rto # ?rest"
    by (simp only: tax_sortedFields catalog_sorted)
  have s1: "fuzzyFieldStep ?cols ?m ([], {}) = ([(''municipalTax'', ''tax'')], {''tax''})"
    by (simp add: fuzzyFieldStep_def tax_pick_municipalTax claim_def)
  have s2: "fuzzyFieldStep ?cols ?r ([(''municipalTax'', ''tax'')], {''tax''})
      = ([(''municipalTax'', ''tax''), (''roadTax'', ''Tax'')], {''Tax'', ''tax''})"
    by (simp add: fuzzyFieldStep_def tax_pick_roadTax claim_def)
  have s3: "fold (fuzzyFieldStep ?cols) [?p, ?ec, ?ep]
        ([(''municipalTax'', ''tax''), (''roadTax'', ''Tax'')], {''Tax'', ''tax''})
      = ([(''municipalTax'', ''tax''), (''roadTax'', ''Tax'')], {''Tax'', ''tax''})"
    by (rule fuzzyPass_exhausted) simp
  note T = fuzzy_pass_order [of ?cols, THEN conjunct2, THEN conjunct2, THEN conjunct2,
      THEN conjunct2, THEN conjunct2, rule_format, unfolded Let_def]
  have o: "sorted_wrt (\<lambda>a b. tokenCount (label b) \<le> tokenCount (label a))
      (sortedFields BUSINESS_FIELDS ?cols)"
    using fuzzy_pass_order [of ?cols] by blast
  have k: "map key (sortedFields BUSINESS_FIELDS ?cols) =
     [''municipalTax'', ''roadTax'', ''p1Total'', ''effectiveOnRoadCore'', ''effectiveOnRoadPro'',
      ''rtoRoadSafety'', ''exShowroomPrice'', ''smartCardFee'', ''stateSubsidy'', ''serviceCharge'',
      ''postGstDiscount'', ''postalCharges'', ''emps'', ''insurance'']"
    unfolding sf by simp
  have "sortedFields BUSINESS_FIELDS ?cols = [] @ ?m # (?r # ?p # ?ec # ?ep # ?rto # ?rest)"
    unfolding sf by simp
  from T [OF this, THEN conjunct2, THEN conjunct2]
  have 1: "map_of (autoMapColumns ?cols) ''municipalTax'' = Some ''tax''"
    by (simp add: tax_cleaned tax_pick_municipalTax)
  have "sortedFields BUSINESS_FIELDS ?cols = [?m] @ ?r # (?p # ?ec # ?ep # ?rto # ?rest)"
    unfolding sf by simp
  from T [OF this, THEN conjunct2, THEN conjunct2]
  have 2: "map_of (autoMapColumns ?cols) ''roadTax'' = Some ''Tax''"
    by (simp add: tax_cleaned s1 tax_pick_roadTax)
  have "sortedFields BUSINESS_FIELDS ?cols = [?m, ?r, ?p, ?ec, ?ep] @ ?rto # ?rest"
    unfolding sf by simp
  from T [OF this, THEN conjunct2, THEN conjunct2]
  have 3: "map_of (autoMapColumns ?cols) ''rtoRoadSafety'' = None"
    using s3 by (simp add: tax_cleaned s1 s2 findBestMatch_no_columns)
  from k o 1 2 3 tax_pick_rtoRoadSafety show ?thesis by simp
qed

subsection \<open>Claim C10\<close>

text \<open>
  Claim C10. The returned mapping is well formed: every key is the key of a catalog
  field, every value is one of the given column headers, and an empty column list
  gives the empty mapping.
\<close>

theorem autoMapColumns_wellFormed:
  "fst ` set (autoMapColumnsWith catalog columnNames) \<subseteq> key ` set catalog \<and>
   snd ` set (autoMapColumnsWith catalog columnNames) \<subseteq> set columnNames \<and>
   autoMapColumnsWith catalog [] = []"
proof -
  have a: "fst ` set (autoMapColumnsWith catalog cols) \<subseteq> key ` set catalog \<and>
           snd ` set (autoMapColumnsWith catalog cols) \<subseteq> set cols" for cols
    using wellFormed_final [of catalog cols]
    by (simp add: wellFormed_def autoMapColumnsWith_def)
  from a [of "[]"] have "autoMapColumnsWith catalog [] = []" by simp
  with a [of columnNames] show ?thesis by simp
qed

theorem autoMapColumns_wellFormed_witness:
  "fst ` set (autoMapColumns [''Road Tax %'', ''Model'']) \<subseteq> key ` set BUSINESS_FIELDS \<and>
   snd ` set (autoMapColumns [''Road Tax %'', ''Model'']) \<subseteq> {''Road Tax %'', ''Model''} \<and>
   autoMapColumns [] = []"
  using autoMapColumns_wellFormed [of BUSINESS_FIELDS "[''Road Tax %'', ''Model'']"]
  by (simp add: autoMapColumns_def)

end
